theory Spec2Isabelle
  imports Main
begin

section \<open>Values, objects and exceptions\<close>

text \<open>
  The values the library can be handed as listeners, and find under the property
  \<open>next\<close> of a listener:
  \<^item> a function value, named by an identifier \<open>fn\<close>; what it does when called is
    given by a program table (below).  A function is an object too and may carry a
    property \<open>next\<close> of its own: \<open>Fn f\<close> is a function without that property,
    \<open>FnNext f x\<close> a function whose property \<open>next\<close> is \<open>x\<close>;
  \<^item> a reference \<open>Ref r\<close> to an object that is not a function.  It lives in a heap
    at the address \<open>r\<close>; the only property the library ever reads from it is
    \<open>next\<close>, which may be absent.  Object identity is the address: the \<open>Set\<close> of a
    subject compares its members by identity;
  \<^item> \<open>Null\<close>, for \<open>null\<close> and \<open>undefined\<close>: reading a property of it throws;
  \<^item> the primitives \<open>Num n\<close> and \<open>Bool b\<close>, which have no property \<open>next\<close>.
\<close>

type_synonym fn = nat
type_synonym ref = nat

datatype jsval = Fn fn | FnNext fn jsval | Ref ref | Null | Num int | Bool bool

datatype jsobj = JSObj (next_field: "jsval option")

type_synonym heap = "jsobj list"

datatype exn = TypeError | UserError nat

datatype 'a outcome = Returns 'a | Throws exn

text \<open>\<open>typeof x === 'function'\<close>, and the function that a call of \<open>x\<close> runs.\<close>

fun callee :: "jsval \<Rightarrow> fn option" where
  "callee (Fn f) = Some f"
| "callee (FnNext f x) = Some f"
| "callee (Ref r) = None"
| "callee Null = None"
| "callee (Num n) = None"
| "callee (Bool b) = None"

fun is_function :: "jsval \<Rightarrow> bool" where
  "is_function (Fn f) = True"
| "is_function (FnNext f x) = True"
| "is_function (Ref r) = False"
| "is_function Null = False"
| "is_function (Num n) = False"
| "is_function (Bool b) = False"

text \<open>
  What \<open>!x\<close> negates: \<open>null\<close>, \<open>undefined\<close>, \<open>0\<close> and \<open>false\<close> are falsy,
  functions, objects and the other numbers are truthy.
\<close>

fun truthy :: "jsval \<Rightarrow> bool" where
  "truthy (Fn f) = True"
| "truthy (FnNext f x) = True"
| "truthy (Ref r) = True"
| "truthy Null = False"
| "truthy (Num n) = (n \<noteq> 0)"
| "truthy (Bool b) = b"

text \<open>
  \<open>o.next\<close>: the value of the property \<open>next\<close> of \<open>o\<close>, \<open>None\<close> when it is
  \<open>undefined\<close>.  A reference that points outside the heap is treated like an object
  without the property.  (Reading \<open>null.next\<close> throws; the callers below treat
  \<open>Null\<close> before they read.)
\<close>

fun get_next :: "heap \<Rightarrow> jsval \<Rightarrow> jsval option" where
  "get_next h (Fn f) = None"
| "get_next h (FnNext f x) = Some x"
| "get_next h (Ref r) = (if r < length h then next_field (h ! r) else None)"
| "get_next h Null = None"
| "get_next h (Num n) = None"
| "get_next h (Bool b) = None"

text \<open>Whether \<open>o.next\<close> is truthy, for an \<open>o\<close> that is not \<open>null\<close>.\<close>

definition next_truthy :: "heap \<Rightarrow> jsval \<Rightarrow> bool" where
  "next_truthy h x = (case get_next h x of None \<Rightarrow> False | Some y \<Rightarrow> truthy y)"

text \<open>
  The function that the call \<open>o.next(v)\<close> runs: \<open>None\<close> when the call is a
  TypeError, because \<open>o\<close> is \<open>null\<close> or \<open>o.next\<close> is missing or is not a
  function.
\<close>

definition next_method :: "heap \<Rightarrow> jsval \<Rightarrow> fn option" where
  "next_method h ob = (case get_next h ob of None \<Rightarrow> None | Some x \<Rightarrow> callee x)"

text \<open>
  \<^verbatim>\<open>
  function wrapWithObserver(listener) {
      if (typeof listener === 'function') {
          return { next: listener };
      } else {
          return listener;
      }
  }
  \<close>
  The object literal allocates a fresh object: the heap grows by one cell and the
  result is its address.
\<close>

definition wrapWithObserver :: "jsval \<Rightarrow> heap \<Rightarrow> jsval \<times> heap" where
  "wrapWithObserver listener h =
     (if is_function listener
      then (Ref (length h), h @ [JSObj (Some listener)])
      else (listener, h))"

section \<open>The built-in Set\<close>

text \<open>
  The subject keeps its observers in a JavaScript \<open>Set\<close>, and what \<open>next\<close> does
  while callbacks change that set is the language's \<open>Set.prototype.forEach\<close>.  A
  \<open>Set\<close> keeps its entries in a list, in insertion order.  \<open>add\<close> appends a value
  that is not yet a member, \<open>delete\<close> replaces the entry by an empty slot (the list
  never shrinks), and \<open>forEach\<close> walks the list by index, skipping empty slots and
  reading the length again after every callback: an entry deleted before the walk
  reaches it is not visited, an entry added during the walk is.  An entry is
  \<open>Some x\<close>, an empty slot is \<open>None\<close>.  The walk itself, \<open>forEach\<close>, is defined with
  the subject below, since it runs callbacks.
\<close>

type_synonym 'a jsset = "'a option list"

definition set_add :: "'a \<Rightarrow> 'a jsset \<Rightarrow> 'a jsset" where
  "set_add x es = (if Some x \<in> set es then es else es @ [Some x])"

definition set_delete :: "'a \<Rightarrow> 'a jsset \<Rightarrow> 'a jsset" where
  "set_delete x es = map (\<lambda>e. if e = Some x then None else e) es"

definition members :: "'a jsset \<Rightarrow> 'a list" where
  "members es = map the (filter (\<lambda>e. e \<noteq> None) es)"

section \<open>IndefiniteSubject\<close>

text \<open>
  A value handed to \<open>next\<close> is any JavaScript value; \<open>None\<close> stands for
  \<open>undefined\<close>, which is also what the field \<open>_lastValue\<close> reads as before the
  first emission.

  The world of a subject: the heap of observer objects, the three fields of the
  subject (\<open>_observers\<close>, \<open>_hasStarted\<close>, \<open>_lastValue\<close>) and a ghost trace that
  records, in order, every call of the subject's \<open>next\<close> and every call of an
  observer's \<open>next\<close> function.
\<close>

datatype 'v event = Emitted "'v option" | Delivered jsval "'v option"

record 'v world =
  heap :: heap
  observers :: "jsval jsset"
  hasStarted :: bool
  lastValue :: "'v option"
  trace :: "'v event list"

text \<open>
  A Subscription returned by the subject's \<open>subscribe\<close> is a closure over the
  normalized observer and nothing else.
\<close>

datatype subscription = Subscription jsval

text \<open>
  What a callback does when it runs, as far as the subject can see it: it may call
  back into the subject (\<open>subscribe\<close>, \<open>unsubscribe\<close> on a subscription, \<open>next\<close>)
  and it may throw.  The program table gives the body of every function value, a
  list of such steps for the value it is called with.  The steps run in order and
  the body catches nothing: when a step throws, the body throws.  Whatever else a
  callback computes is invisible to the subject and is left out.
\<close>

datatype 'v cmd =
    CallSubscribe jsval
  | CallUnsubscribe subscription
  | CallNext "'v option"
  | Throw exn

type_synonym 'v prog = "fn \<Rightarrow> 'v option \<Rightarrow> 'v cmd list"

text \<open>
  \<^verbatim>\<open>
  constructor() {
      this._observers = new Set();
      this._hasStarted = false;
  }
  \<close>
\<close>

definition IndefiniteSubject :: "heap \<Rightarrow> 'v world" where
  "IndefiniteSubject h =
     \<lparr>heap = h, observers = [], hasStarted = False, lastValue = None, trace = []\<rparr>"

text \<open>
  \<^verbatim>\<open>
  unsubscribe: () => {
      this._observers.delete(observer);
  }
  \<close>
\<close>

fun subject_unsubscribe :: "subscription \<Rightarrow> 'v world \<Rightarrow> 'v world" where
  "subject_unsubscribe (Subscription observer) w =
     w\<lparr>observers := set_delete observer (observers w)\<rparr>"

text \<open>
  \<^verbatim>\<open>
  next(value) {
      this._hasStarted = true;
      this._lastValue = value;
      this._observers.forEach((observer) => observer.next(value));
  }
  subscribe(observerOrNext) {
      const observer = wrapWithObserver(observerOrNext);
      this._observers.add(observer);
      if (this._hasStarted) {
          observer.next(this._lastValue);
      }
      return { unsubscribe: () => { this._observers.delete(observer); } };
  }
  \<close>
  Callbacks can call back into the subject, so the methods, the loop of \<open>forEach\<close>
  and the execution of a callback body are mutually recursive, and a callback that
  subscribes itself again never returns.  The first argument after the program
  table is fuel: every call of a callback and every step of the loop uses one unit,
  and \<open>None\<close> means the fuel ran out.  A result \<open>Some (r, w)\<close> is the outcome \<open>r\<close>
  (returned or thrown) and the world at that moment.

  \<open>call_next prog n ob v\<close> is the call \<open>ob.next(v)\<close>; a \<open>next\<close> that is missing or
  is not a function makes the call a TypeError.
\<close>

function call_next :: "'v prog \<Rightarrow> nat \<Rightarrow> jsval \<Rightarrow> 'v option \<Rightarrow> 'v world \<Rightarrow> (unit outcome \<times> 'v world) option"
and run_body :: "'v prog \<Rightarrow> nat \<Rightarrow> 'v cmd list \<Rightarrow> 'v world \<Rightarrow> (unit outcome \<times> 'v world) option"
and run_cmd :: "'v prog \<Rightarrow> nat \<Rightarrow> 'v cmd \<Rightarrow> 'v world \<Rightarrow> (unit outcome \<times> 'v world) option"
and subject_subscribe :: "'v prog \<Rightarrow> nat \<Rightarrow> jsval \<Rightarrow> 'v world \<Rightarrow> (subscription outcome \<times> 'v world) option"
and subject_next :: "'v prog \<Rightarrow> nat \<Rightarrow> 'v option \<Rightarrow> 'v world \<Rightarrow> (unit outcome \<times> 'v world) option"
and forEach :: "'v prog \<Rightarrow> nat \<Rightarrow> nat \<Rightarrow> 'v option \<Rightarrow> 'v world \<Rightarrow> (unit outcome \<times> 'v world) option"
where
  "call_next prog 0 ob v w = None"
| "call_next prog (Suc n) ob v w =
     (case next_method (heap w) ob of
        Some f \<Rightarrow> run_body prog n (prog f v) (w\<lparr>trace := trace w @ [Delivered ob v]\<rparr>)
      | None \<Rightarrow> Some (Throws TypeError, w))"
| "run_body prog n [] w = Some (Returns (), w)"
| "run_body prog n (c # cs) w =
     (case run_cmd prog n c w of
        None \<Rightarrow> None
      | Some (Throws e, w') \<Rightarrow> Some (Throws e, w')
      | Some (Returns u, w') \<Rightarrow> run_body prog n cs w')"
| "run_cmd prog n (CallSubscribe l) w =
     (case subject_subscribe prog n l w of
        None \<Rightarrow> None
      | Some (Throws e, w') \<Rightarrow> Some (Throws e, w')
      | Some (Returns s, w') \<Rightarrow> Some (Returns (), w'))"
| "run_cmd prog n (CallUnsubscribe s) w = Some (Returns (), subject_unsubscribe s w)"
| "run_cmd prog n (CallNext v) w = subject_next prog n v w"
| "run_cmd prog n (Throw e) w = Some (Throws e, w)"
| "subject_subscribe prog n observerOrNext w =
     (let (observer, h) = wrapWithObserver observerOrNext (heap w);
          w1 = w\<lparr>heap := h, observers := set_add observer (observers w)\<rparr>
      in if hasStarted w1 then
           (case call_next prog n observer (lastValue w1) w1 of
              None \<Rightarrow> None
            | Some (Throws e, w') \<Rightarrow> Some (Throws e, w')
            | Some (Returns u, w') \<Rightarrow> Some (Returns (Subscription observer), w'))
         else Some (Returns (Subscription observer), w1))"
| "subject_next prog n v w =
     forEach prog n 0 v
       (w\<lparr>hasStarted := True, lastValue := v, trace := trace w @ [Emitted v]\<rparr>)"
| "forEach prog 0 i v w = None"
| "forEach prog (Suc n) i v w =
     (if i < length (observers w) then
        (case observers w ! i of
           None \<Rightarrow> forEach prog n (Suc i) v w
         | Some ob \<Rightarrow>
             (case call_next prog n ob v w of
                None \<Rightarrow> None
              | Some (Throws e, w') \<Rightarrow> Some (Throws e, w')
              | Some (Returns u, w') \<Rightarrow> forEach prog n (Suc i) v w'))
      else Some (Returns (), w))"
  by pat_completeness auto
termination
  by (relation "measures
        [\<lambda>x. case x of
              Inl (Inl (p, n, r)) \<Rightarrow> n
            | Inl (Inr (Inl (p, n, r))) \<Rightarrow> n
            | Inl (Inr (Inr (p, n, r))) \<Rightarrow> n
            | Inr (Inl (p, n, r)) \<Rightarrow> n
            | Inr (Inr (Inl (p, n, r))) \<Rightarrow> n
            | Inr (Inr (Inr (p, n, r))) \<Rightarrow> n,
         \<lambda>x. case x of
              Inl (Inl r) \<Rightarrow> 0
            | Inl (Inr (Inl r)) \<Rightarrow> 5
            | Inl (Inr (Inr r)) \<Rightarrow> 4
            | Inr (Inl r) \<Rightarrow> 3
            | Inr (Inr (Inl r)) \<Rightarrow> 3
            | Inr (Inr (Inr r)) \<Rightarrow> 2,
         \<lambda>x. case x of
              Inl (Inr (Inl (p, n, cs, r))) \<Rightarrow> length cs
            | _ \<Rightarrow> 0]")
     auto

text \<open>
  A client of the subject: it performs the calls of a list in turn and catches
  whatever a call throws, so that the next call still happens.  \<open>None\<close> when a call
  runs out of fuel.
\<close>

fun client :: "'v prog \<Rightarrow> nat \<Rightarrow> 'v cmd list \<Rightarrow> 'v world \<Rightarrow> 'v world option" where
  "client prog n [] w = Some w"
| "client prog n (c # cs) w =
     (case run_cmd prog n c w of
        None \<Rightarrow> None
      | Some (r, w') \<Rightarrow> client prog n cs w')"

text \<open>Reading the ghost trace.\<close>

text \<open>The values an observer's \<open>next\<close> function was called with, oldest first.\<close>

fun received :: "jsval \<Rightarrow> 'v event list \<Rightarrow> 'v option list" where
  "received ob [] = []"
| "received ob (Emitted v # es) = received ob es"
| "received ob (Delivered ob' v # es) =
     (if ob' = ob then v # received ob es else received ob es)"

text \<open>The observers that were called, oldest call first.\<close>

fun notified :: "'v event list \<Rightarrow> jsval list" where
  "notified [] = []"
| "notified (Emitted v # es) = notified es"
| "notified (Delivered ob v # es) = ob # notified es"

text \<open>
  The value of the most recent call of the subject's \<open>next\<close>, \<open>None\<close> when there
  was no such call.
\<close>

fun latest :: "'v event list \<Rightarrow> 'v option option" where
  "latest [] = None"
| "latest (Emitted v # es) = (case latest es of None \<Rightarrow> Some v | Some u \<Rightarrow> Some u)"
| "latest (Delivered ob v # es) = latest es"

text \<open>
  An observer is quiet for a value when its \<open>next\<close> is a function whose body, on
  that value, neither calls back into the subject nor throws.
\<close>

definition quiet :: "'v prog \<Rightarrow> heap \<Rightarrow> 'v option \<Rightarrow> jsval \<Rightarrow> bool" where
  "quiet prog h v ob =
     (case next_method h ob of
        Some f \<Rightarrow> prog f v = []
      | None \<Rightarrow> False)"

text \<open>
  An observer throws at once for a value when calling its \<open>next\<close> with that value
  throws before it does anything else: \<open>next\<close> is missing or not a function, or the
  first thing the function does is throw.
\<close>

definition throws_at_once :: "'v prog \<Rightarrow> heap \<Rightarrow> 'v option \<Rightarrow> jsval \<Rightarrow> exn option" where
  "throws_at_once prog h v ob =
     (case next_method h ob of
        Some f \<Rightarrow> (case prog f v of Throw e # cs \<Rightarrow> Some e | _ \<Rightarrow> None)
      | None \<Rightarrow> Some TypeError)"

section \<open>IndefiniteObservable\<close>

text \<open>
  The connect function given to the constructor and the disconnect function it
  returns are the client's code.  They act on a state \<open>'u\<close> of the client's own, and
  they return or throw.  The world of an observable is that state, the heap of
  observer objects, the closures of the subscriptions made so far (a Subscription
  is named by its index in this list), and a ghost log of every call of a connect
  or disconnect function.
\<close>

type_synonym 'u disconnect = "'u \<Rightarrow> unit outcome \<times> 'u"
type_synonym 'u connect = "jsval \<Rightarrow> 'u \<Rightarrow> 'u disconnect outcome \<times> 'u"

datatype ocall = Connect jsval | Disconnect nat

record ('u, 's) oworld =
  user :: 'u
  oheap :: heap
  subscriptions :: "'s list"
  calls :: "ocall list"

subsection \<open>The class of dist/indefinite-observable.js\<close>

text \<open>
  \<^verbatim>\<open>
  constructor(connect) {
      this._connect = connect;
  }
  subscribe(observerOrNext) {
      const observer = wrapWithObserver(observerOrNext);
      const disconnect = this._connect(observer);
      let closed = false;
      return {
          unsubscribe() {
              if (!closed) {
                  closed = true;
                  disconnect();
              }
          }
      };
  }
  \<close>
  The closure of a Subscription holds \<open>closed\<close> and \<open>disconnect\<close>.
\<close>

record 'u observable =
  connect :: "'u connect"

record 'u closure =
  closed :: bool
  disconnect :: "'u disconnect"

definition IndefiniteObservable ::
  "'u connect \<Rightarrow> ('u, 's) oworld \<Rightarrow> 'u observable \<times> ('u, 's) oworld" where
  "IndefiniteObservable c w = (\<lparr>connect = c\<rparr>, w)"

definition observable_subscribe ::
  "'u observable \<Rightarrow> jsval \<Rightarrow> ('u, 'u closure) oworld \<Rightarrow> nat outcome \<times> ('u, 'u closure) oworld" where
  "observable_subscribe this observerOrNext w =
     (let (observer, h) = wrapWithObserver observerOrNext (oheap w);
          w1 = w\<lparr>oheap := h, calls := calls w @ [Connect observer]\<rparr>;
          (r, u) = connect this observer (user w1)
      in case r of
           Throws e \<Rightarrow> (Throws e, w1\<lparr>user := u\<rparr>)
         | Returns d \<Rightarrow>
             (Returns (length (subscriptions w1)),
              w1\<lparr>user := u,
                 subscriptions := subscriptions w1 @ [\<lparr>closed = False, disconnect = d\<rparr>]\<rparr>))"

text \<open>
  Calling \<open>unsubscribe\<close> on a value that is not a Subscription (an index outside
  the list) is a TypeError.
\<close>

definition observable_unsubscribe ::
  "nat \<Rightarrow> ('u, 'u closure) oworld \<Rightarrow> unit outcome \<times> ('u, 'u closure) oworld" where
  "observable_unsubscribe k w =
     (if k < length (subscriptions w) then
        (let c = subscriptions w ! k in
         if closed c then (Returns (), w)
         else
           (let w1 = w\<lparr>subscriptions := (subscriptions w)[k := c\<lparr>closed := True\<rparr>],
                       calls := calls w @ [Disconnect k]\<rparr>;
                (r, u) = disconnect c (user w1)
            in (r, w1\<lparr>user := u\<rparr>)))
      else (Throws TypeError, w))"

subsection \<open>The class of the bundled copy\<close>

text \<open>
  \<^verbatim>\<open>
  function IndefiniteObservable(creator){this._creator=creator;}
  IndefiniteObservable.prototype.subscribe=function(listener){
    if(!listener.next){listener={next:listener};}
    var unsubscribe=this._creator(listener);
    return{unsubscribe:unsubscribe};};
  \<close>
  Here the Subscription's \<open>unsubscribe\<close> is the function the creator returned, so
  the entry of a Subscription in the list is that function.  The test
  \<open>!listener.next\<close> reads a property: on \<open>null\<close> or \<open>undefined\<close> that read throws
  a TypeError, before the creator is called; otherwise the listener is wrapped
  when its \<open>next\<close> is missing or falsy, whatever kind of value the listener is.
\<close>

record 'u bundled_observable =
  creator :: "'u connect"

definition bundled_IndefiniteObservable ::
  "'u connect \<Rightarrow> ('u, 's) oworld \<Rightarrow> 'u bundled_observable \<times> ('u, 's) oworld" where
  "bundled_IndefiniteObservable c w = (\<lparr>creator = c\<rparr>, w)"

definition bundled_subscribe ::
  "'u bundled_observable \<Rightarrow> jsval \<Rightarrow> ('u, 'u disconnect) oworld
     \<Rightarrow> nat outcome \<times> ('u, 'u disconnect) oworld" where
  "bundled_subscribe this listener w =
     (if listener = Null then (Throws TypeError, w)
      else
        (let (listener', h) =
               (if \<not> next_truthy (oheap w) listener
                then (Ref (length (oheap w)), oheap w @ [JSObj (Some listener)])
                else (listener, oheap w));
             w1 = w\<lparr>oheap := h, calls := calls w @ [Connect listener']\<rparr>;
             (r, u) = creator this listener' (user w1)
         in case r of
              Throws e \<Rightarrow> (Throws e, w1\<lparr>user := u\<rparr>)
            | Returns unsub \<Rightarrow>
                (Returns (length (subscriptions w1)),
                 w1\<lparr>user := u, subscriptions := subscriptions w1 @ [unsub]\<rparr>)))"

definition bundled_unsubscribe ::
  "nat \<Rightarrow> ('u, 'u disconnect) oworld \<Rightarrow> unit outcome \<times> ('u, 'u disconnect) oworld" where
  "bundled_unsubscribe k w =
     (if k < length (subscriptions w) then
        (let w1 = w\<lparr>calls := calls w @ [Disconnect k]\<rparr>;
             (r, u) = (subscriptions w ! k) (user w1)
         in (r, w1\<lparr>user := u\<rparr>))
      else (Throws TypeError, w))"

subsection \<open>Clients of an observable\<close>

text \<open>
  A client performs a list of calls in turn, catching whatever a call throws, and
  records the outcome of each call.
\<close>

datatype ocmd = Subscribe jsval | Unsubscribe nat

datatype oresult = Subscribed nat | Unsubscribed | Failed exn

fun observable_client ::
  "'u observable \<Rightarrow> ocmd list \<Rightarrow> ('u, 'u closure) oworld
     \<Rightarrow> oresult list \<times> ('u, 'u closure) oworld" where
  "observable_client this [] w = ([], w)"
| "observable_client this (Subscribe l # cs) w =
     (let (r, w') = observable_subscribe this l w;
          (rs, w'') = observable_client this cs w'
      in ((case r of Returns k \<Rightarrow> Subscribed k | Throws e \<Rightarrow> Failed e) # rs, w''))"
| "observable_client this (Unsubscribe k # cs) w =
     (let (r, w') = observable_unsubscribe k w;
          (rs, w'') = observable_client this cs w'
      in ((case r of Returns u \<Rightarrow> Unsubscribed | Throws e \<Rightarrow> Failed e) # rs, w''))"

fun bundled_client ::
  "'u bundled_observable \<Rightarrow> ocmd list \<Rightarrow> ('u, 'u disconnect) oworld
     \<Rightarrow> oresult list \<times> ('u, 'u disconnect) oworld" where
  "bundled_client this [] w = ([], w)"
| "bundled_client this (Subscribe l # cs) w =
     (let (r, w') = bundled_subscribe this l w;
          (rs, w'') = bundled_client this cs w'
      in ((case r of Returns k \<Rightarrow> Subscribed k | Throws e \<Rightarrow> Failed e) # rs, w''))"
| "bundled_client this (Unsubscribe k # cs) w =
     (let (r, w') = bundled_unsubscribe k w;
          (rs, w'') = bundled_client this cs w'
      in ((case r of Returns u \<Rightarrow> Unsubscribed | Throws e \<Rightarrow> Failed e) # rs, w''))"

text \<open>Reading the ghost log.\<close>

fun connect_calls :: "ocall list \<Rightarrow> jsval list" where
  "connect_calls [] = []"
| "connect_calls (Connect ob # cs) = ob # connect_calls cs"
| "connect_calls (Disconnect k # cs) = connect_calls cs"

fun disconnect_calls :: "ocall list \<Rightarrow> nat list" where
  "disconnect_calls [] = []"
| "disconnect_calls (Connect ob # cs) = disconnect_calls cs"
| "disconnect_calls (Disconnect k # cs) = k # disconnect_calls cs"

text \<open>
  The observers that \<open>wrapWithObserver\<close> makes of a list of listeners, one call
  after the other.
\<close>

fun normalized :: "jsval list \<Rightarrow> heap \<Rightarrow> jsval list" where
  "normalized [] h = []"
| "normalized (l # ls) h =
     (let (ob, h') = wrapWithObserver l h in ob # normalized ls h')"

text \<open>
  What the connect function does when it is applied to a list of observers, one
  after the other and once each: what each application returns or throws, and the
  client's state in the end.
\<close>

fun connect_each :: "'u connect \<Rightarrow> jsval list \<Rightarrow> 'u \<Rightarrow> 'u disconnect outcome list \<times> 'u" where
  "connect_each c [] u = ([], u)"
| "connect_each c (ob # obs) u =
     (let (r, u1) = c ob u; (rs, u2) = connect_each c obs u1 in (r # rs, u2))"

text \<open>The values that were returned, and what a client sees of a list of outcomes of
  \<open>subscribe\<close> when the next free index of a Subscription is \<open>k\<close>.\<close>

fun returned :: "'a outcome list \<Rightarrow> 'a list" where
  "returned [] = []"
| "returned (Returns d # rs) = d # returned rs"
| "returned (Throws e # rs) = returned rs"

fun handles :: "nat \<Rightarrow> 'a outcome list \<Rightarrow> oresult list" where
  "handles k [] = []"
| "handles k (Returns d # rs) = Subscribed k # handles (Suc k) rs"
| "handles k (Throws e # rs) = Failed e # handles k rs"

text \<open>
  What it means that \<open>ob\<close> is the normalized observer of the listener \<open>l\<close>: for a
  function, an object whose \<open>next\<close> is that function; for anything else, the
  listener itself.
\<close>

definition normalizes :: "heap \<Rightarrow> jsval \<Rightarrow> jsval \<Rightarrow> bool" where
  "normalizes h l ob = (if is_function l then get_next h ob = Some l else ob = l)"

text \<open>
  The listeners on which the two tests, \<open>typeof listener === 'function'\<close> of dist
  and \<open>!listener.next\<close> of the bundled copy, come to the same decision: a function
  whose \<open>next\<close> is missing or falsy (both wrap it), and a value that is neither a
  function nor \<open>null\<close> whose \<open>next\<close> is truthy (both leave it).  The listeners of
  the documented kinds, a plain function and an object with a \<open>next\<close> method, are
  among them.
\<close>

definition listener_ok :: "heap \<Rightarrow> jsval \<Rightarrow> bool" where
  "listener_ok h l = (l \<noteq> Null \<and> is_function l \<noteq> next_truthy h l)"

section \<open>Properties of worlds and example worlds\<close>

text \<open>
  The cached value agrees with the ghost trace: the subject has started exactly
  when its \<open>next\<close> was called, and then \<open>_lastValue\<close> is the value of the most
  recent call.
\<close>

definition cache_ok :: "'v world \<Rightarrow> bool" where
  "cache_ok w = (latest (trace w) = (if hasStarted w then Some (lastValue w) else None))"

text \<open>Callbacks that do nothing the subject can see.\<close>

definition silent :: "nat prog" where
  "silent f v = []"

text \<open>A heap with one observer object \<open>{next: f0}\<close>, and one with two.\<close>

definition one_object :: heap where
  "one_object = [JSObj (Some (Fn 0))]"

definition two_objects :: heap where
  "two_objects = [JSObj (Some (Fn 0)), JSObj (Some (Fn 1))]"

text \<open>A subject after \<open>next(1); next(2)\<close>, with no subscriber yet.\<close>

definition after_two_emissions :: "nat world" where
  "after_two_emissions =
     \<lparr>heap = one_object, observers = [], hasStarted = True, lastValue = Some 2,
      trace = [Emitted (Some 1), Emitted (Some 2)]\<rparr>"

text \<open>A subject with the two objects subscribed, before any emission.\<close>

definition two_subscribers :: "nat world" where
  "two_subscribers =
     \<lparr>heap = two_objects, observers = [Some (Ref 0), Some (Ref 1)], hasStarted = False,
      lastValue = None, trace = []\<rparr>"

text \<open>
  The trace entry of a call \<open>ob.next(v)\<close> that throws at once: the function was
  entered if \<open>next\<close> is a function, and nothing was called otherwise.
\<close>

definition attempt :: "heap \<Rightarrow> jsval \<Rightarrow> 'v option \<Rightarrow> 'v event list" where
  "attempt h ob v = (case next_method h ob of Some f \<Rightarrow> [Delivered ob v] | None \<Rightarrow> [])"

text \<open>
  A callback body that does nothing but unsubscribe observers that are not among
  the entries \<open>waiting\<close> (the entries the running pass has not reached yet).
\<close>

definition unsubscribes_only :: "'v cmd list \<Rightarrow> jsval jsset \<Rightarrow> bool" where
  "unsubscribes_only body waiting =
     list_all (\<lambda>c. case c of
                      CallUnsubscribe s \<Rightarrow> (case s of Subscription ob \<Rightarrow> Some ob \<notin> set waiting)
                    | _ \<Rightarrow> False) body"

definition settled :: "'v prog \<Rightarrow> heap \<Rightarrow> 'v option \<Rightarrow> jsval jsset \<Rightarrow> jsval \<Rightarrow> bool" where
  "settled prog h v waiting ob =
     (case next_method h ob of
        Some f \<Rightarrow> unsubscribes_only (prog f v) waiting
      | None \<Rightarrow> False)"

text \<open>
  Every observer of the entries, when its turn comes, at most unsubscribes
  observers that are not waiting behind it: itself, observers the pass has
  already visited, or observers that are not subscribed.
\<close>

fun pass_ok :: "'v prog \<Rightarrow> heap \<Rightarrow> 'v option \<Rightarrow> jsval jsset \<Rightarrow> bool" where
  "pass_ok prog h v [] = True"
| "pass_ok prog h v (None # es) = pass_ok prog h v es"
| "pass_ok prog h v (Some ob # es) = (settled prog h v es ob \<and> pass_ok prog h v es)"

text \<open>Example callbacks and worlds of a subject.\<close>

text \<open>\<open>f0\<close> unsubscribes its own observer, the object at address 0.\<close>

definition leaver :: "nat prog" where
  "leaver f v = (if f = 0 then [CallUnsubscribe (Subscription (Ref 0))] else [])"

text \<open>\<open>f0\<close> unsubscribes the object at address 1.\<close>

definition remover :: "nat prog" where
  "remover f v = (if f = 0 then [CallUnsubscribe (Subscription (Ref 1))] else [])"

text \<open>\<open>f0\<close> subscribes the object at address 2.\<close>

definition recruiter :: "nat prog" where
  "recruiter f v = (if f = 0 then [CallSubscribe (Ref 2)] else [])"

text \<open>\<open>f0\<close> subscribes the object at address 1.\<close>

definition resubscriber :: "nat prog" where
  "resubscriber f v = (if f = 0 then [CallSubscribe (Ref 1)] else [])"

text \<open>\<open>f1\<close> throws.\<close>

definition faulty :: "nat prog" where
  "faulty f v = (if f = 1 then [Throw (UserError 0)] else [])"

text \<open>A heap with three observer objects.\<close>

definition three_objects :: heap where
  "three_objects = [JSObj (Some (Fn 0)), JSObj (Some (Fn 1)), JSObj (Some (Fn 2))]"

text \<open>A subject with the one object subscribed, before any emission.\<close>

definition one_subscriber :: "nat world" where
  "one_subscriber =
     \<lparr>heap = one_object, observers = [Some (Ref 0)], hasStarted = False,
      lastValue = None, trace = []\<rparr>"

text \<open>Three objects on the heap, the first two subscribed.\<close>

definition two_of_three :: "nat world" where
  "two_of_three =
     \<lparr>heap = three_objects, observers = [Some (Ref 0), Some (Ref 1)], hasStarted = False,
      lastValue = None, trace = []\<rparr>"

text \<open>Three objects on the heap, all subscribed.\<close>

definition three_subscribers :: "nat world" where
  "three_subscribers =
     \<lparr>heap = three_objects, observers = [Some (Ref 0), Some (Ref 1), Some (Ref 2)],
      hasStarted = False, lastValue = None, trace = []\<rparr>"

text \<open>A subject after \<open>next(2)\<close>, with two objects on the heap and no subscriber.\<close>

definition started :: "nat world" where
  "started =
     \<lparr>heap = two_objects, observers = [], hasStarted = True, lastValue = Some 2,
      trace = [Emitted (Some 2)]\<rparr>"

section \<open>Comparing the two observables\<close>

text \<open>The listeners a client subscribes and the Subscriptions it unsubscribes, in order.\<close>

fun subscribed :: "ocmd list \<Rightarrow> jsval list" where
  "subscribed [] = []"
| "subscribed (Subscribe l # cs) = l # subscribed cs"
| "subscribed (Unsubscribe k # cs) = subscribed cs"

fun unsubscribed :: "ocmd list \<Rightarrow> nat list" where
  "unsubscribed [] = []"
| "unsubscribed (Subscribe l # cs) = unsubscribed cs"
| "unsubscribed (Unsubscribe k # cs) = k # unsubscribed cs"

text \<open>
  A world of the class of dist and a world of the bundled copy agree when the
  client's state, the heap and the log of calls are the same and the Subscriptions
  hold the same disconnect functions.
\<close>

definition agree :: "('u, 'u closure) oworld \<Rightarrow> ('u, 'u disconnect) oworld \<Rightarrow> bool" where
  "agree w wb = (user wb = user w \<and> oheap wb = oheap w \<and> calls wb = calls w \<and>
                 subscriptions wb = map disconnect (subscriptions w))"

text \<open>
  A connect function whose disconnect function counts its own calls in the
  client's state, and a world with nothing in it.
\<close>

definition counting :: "nat connect" where
  "counting ob u = (Returns (\<lambda>u'. (Returns (), Suc u')), u)"

definition empty_world :: "(nat, 's) oworld" where
  "empty_world = \<lparr>user = 0, oheap = [], subscriptions = [], calls = []\<rparr>"

text \<open>A connect function that counts, in the client's state, how often it is applied.\<close>

definition tally :: "nat connect" where
  "tally ob u = (Returns (\<lambda>u'. (Returns (), u')), Suc u)"

text \<open>A world whose heap holds one object without a \<open>next\<close> property.\<close>

definition bare_object_world :: "(nat, 's) oworld" where
  "bare_object_world = \<lparr>user = 0, oheap = [JSObj None], subscriptions = [], calls = []\<rparr>"

text \<open>A world whose heap holds one object \<open>{next: null}\<close>.\<close>

definition null_next_world :: "(nat, 's) oworld" where
  "null_next_world = \<lparr>user = 0, oheap = [JSObj (Some Null)], subscriptions = [], calls = []\<rparr>"

section \<open>The Set and the trace\<close>

lemma members_Nil [simp]: "members [] = []"
  by (simp add: members_def)

lemma members_Cons [simp]:
  "members (e # es) = (case e of None \<Rightarrow> members es | Some x \<Rightarrow> x # members es)"
  by (simp add: members_def split: option.split)

lemma members_append [simp]: "members (xs @ ys) = members xs @ members ys"
  by (simp add: members_def)

lemma set_members: "set (members es) = {x. Some x \<in> set es}"
  by (induction es) (auto split: option.splits)

lemma members_set_add:
  "members (set_add x es) = (if x \<in> set (members es) then members es else members es @ [x])"
  by (auto simp: set_add_def set_members)

lemma members_set_delete: "members (set_delete x es) = removeAll x (members es)"
  by (induction es) (auto simp: set_delete_def split: option.splits)

lemma latest_append [simp]:
  "latest (es @ fs) = (case latest fs of None \<Rightarrow> latest es | Some v \<Rightarrow> Some v)"
  by (induction es rule: latest.induct) (auto split: option.splits)

lemma received_append [simp]: "received ob (xs @ ys) = received ob xs @ received ob ys"
  by (induction xs rule: received.induct) auto

lemma notified_append [simp]: "notified (xs @ ys) = notified xs @ notified ys"
  by (induction xs rule: notified.induct) auto

lemma notified_deliveries [simp]: "notified (map (\<lambda>ob. Delivered ob v) obs) = obs"
  by (induction obs) auto

lemma received_deliveries_absent:
  "ob \<notin> set obs \<Longrightarrow> received ob (map (\<lambda>a. Delivered a v) obs) = []"
  by (induction obs) auto

lemma received_deliveries_once:
  "distinct obs \<Longrightarrow> ob \<in> set obs \<Longrightarrow> received ob (map (\<lambda>a. Delivered a v) obs) = [v]"
  by (induction obs) (auto simp: received_deliveries_absent)

section \<open>Invariants of the subject\<close>

text \<open>
  A property of worlds that survives the four elementary updates (logging a
  delivery, adding a wrapped observer, deleting an observer, recording an
  emission) survives every method call, whatever the callbacks do.  The proof
  follows the mutual recursion of the methods.
\<close>

lemma preserved:
  fixes P :: "'v world \<Rightarrow> bool"
  assumes deliver: "\<And>w ob v. P w \<Longrightarrow> P (w\<lparr>trace := trace w @ [Delivered ob v]\<rparr>)"
    and add: "\<And>w ob h. P w \<Longrightarrow> (\<exists>l. wrapWithObserver l (heap w) = (ob, h)) \<Longrightarrow>
                 P (w\<lparr>heap := h, observers := set_add ob (observers w)\<rparr>)"
    and del: "\<And>w ob. P w \<Longrightarrow> P (w\<lparr>observers := set_delete ob (observers w)\<rparr>)"
    and emit: "\<And>w v. P w \<Longrightarrow>
                 P (w\<lparr>hasStarted := True, lastValue := v, trace := trace w @ [Emitted v]\<rparr>)"
  shows "call_next prog n ob v w = Some (r1, w1) \<Longrightarrow> P w \<Longrightarrow> P w1"
    and "run_body prog n cs w = Some (r2, w2) \<Longrightarrow> P w \<Longrightarrow> P w2"
    and "run_cmd prog n c w = Some (r3, w3) \<Longrightarrow> P w \<Longrightarrow> P w3"
    and "subject_subscribe prog n l w = Some (r4, w4) \<Longrightarrow> P w \<Longrightarrow> P w4"
    and "subject_next prog n v w = Some (r5, w5) \<Longrightarrow> P w \<Longrightarrow> P w5"
    and "forEach prog n i v w = Some (r6, w6) \<Longrightarrow> P w \<Longrightarrow> P w6"
proof (induction prog n ob v w and prog n cs w and prog n c w and prog n l w and prog n v w
         and prog n i v w
       arbitrary: r1 w1 and r2 w2 and r3 w3 and r4 w4 and r5 w5 and r6 w6
       rule: call_next_run_body_run_cmd_subject_subscribe_subject_next_forEach.induct)
  case (1 prog ob v w)
  then show ?case by simp
next
  case (2 prog n ob v w)
  show ?case
  proof (cases "next_method (heap w) ob")
    case None
    with 2 show ?thesis by simp
  next
    case (Some f)
    with 2(2)
    have "run_body prog n (prog f v) (w\<lparr>trace := trace w @ [Delivered ob v]\<rparr>) = Some (r1, w1)"
      by simp
    from 2(1) [OF Some this deliver [OF 2(3)]] show ?thesis .
  qed
next
  case (3 prog n w)
  then show ?case by simp
next
  case (4 prog n c cs w)
  then show ?case
    by (auto split: option.splits outcome.splits prod.splits)
next
  case (5 prog n l w)
  then show ?case
    by (auto split: option.splits outcome.splits prod.splits)
next
  case (6 prog n s w)
  then show ?case by (cases s) (auto intro: del)
next
  case (7 prog n v w)
  then show ?case by simp
next
  case (8 prog n e w)
  then show ?case by simp
next
  case (9 prog n l w)
  obtain ob h where wr: "wrapWithObserver l (heap w) = (ob, h)"
    by (cases "wrapWithObserver l (heap w)")
  let ?w1 = "w\<lparr>heap := h, observers := set_add ob (observers w)\<rparr>"
  from 9(3) wr have P1: "P ?w1" by (intro add) auto
  show ?case
  proof (cases "hasStarted w")
    case True
    with 9(2) wr obtain r where "call_next prog n ob (lastValue ?w1) ?w1 = Some (r, w4)"
      by (auto split: option.splits outcome.splits prod.splits)
    from 9(1) [OF wr [symmetric] refl refl _ this P1] True show ?thesis by simp
  next
    case False
    with 9(2) wr P1 show ?thesis by simp
  qed
next
  case (10 prog n v w)
  then show ?case by (auto intro: emit)
next
  case (11 prog i v w)
  then show ?case by simp
next
  case (12 prog n i v w)
  then show ?case
    by (auto split: option.splits outcome.splits prod.splits if_splits)
qed

lemma client_preserved:
  fixes P :: "'v world \<Rightarrow> bool"
  assumes deliver: "\<And>w ob v. P w \<Longrightarrow> P (w\<lparr>trace := trace w @ [Delivered ob v]\<rparr>)"
    and add: "\<And>w ob h. P w \<Longrightarrow> (\<exists>l. wrapWithObserver l (heap w) = (ob, h)) \<Longrightarrow>
                 P (w\<lparr>heap := h, observers := set_add ob (observers w)\<rparr>)"
    and del: "\<And>w ob. P w \<Longrightarrow> P (w\<lparr>observers := set_delete ob (observers w)\<rparr>)"
    and emit: "\<And>w v. P w \<Longrightarrow>
                 P (w\<lparr>hasStarted := True, lastValue := v, trace := trace w @ [Emitted v]\<rparr>)"
    and run: "client prog n cs w = Some w'"
    and start: "P w"
  shows "P w'"
  using run start
proof (induction cs arbitrary: w)
  case Nil
  then show ?case by simp
next
  case (Cons c cs)
  from Cons.prems(1) obtain r w1 where c: "run_cmd prog n c w = Some (r, w1)"
    and rest: "client prog n cs w1 = Some w'"
    by (auto split: option.splits)
  have "P w1"
    by (rule preserved(3) [of P, OF deliver add del emit c Cons.prems(2)])
  with rest show ?case by (rule Cons.IH)
qed

text \<open>Every world a client can reach from a new subject has a correct cache.\<close>

lemma cache_ok_client:
  assumes "client prog n cs (IndefiniteSubject h) = Some w"
  shows "cache_ok w"
proof (rule client_preserved [of cache_ok, OF _ _ _ _ assms])
  show "cache_ok (IndefiniteSubject h :: 'a world)"
    by (simp add: cache_ok_def IndefiniteSubject_def)
qed (simp_all add: cache_ok_def)

text \<open>And its set of observers holds no observer twice.\<close>

lemma distinct_client:
  assumes "client prog n cs (IndefiniteSubject h) = Some w"
  shows "distinct (members (observers w))"
proof (rule client_preserved [of "\<lambda>w. distinct (members (observers w))", OF _ _ _ _ assms])
  show "distinct (members (observers (IndefiniteSubject h :: 'a world)))"
    by (simp add: IndefiniteSubject_def)
qed (simp_all add: members_set_add members_set_delete distinct_removeAll)

section \<open>Delivery to quiet observers\<close>

lemma call_next_quiet:
  assumes "quiet prog (heap w) v ob"
  shows "call_next prog (Suc n) ob v w =
           Some (Returns (), w\<lparr>trace := trace w @ [Delivered ob v]\<rparr>)"
  using assms by (auto simp: quiet_def split: option.splits)

lemma forEach_quiet:
  assumes "\<forall>ob \<in> set (members (drop i (observers w))). quiet prog (heap w) v ob"
    and "length (observers w) - i < n"
  shows "forEach prog n i v w =
           Some (Returns (),
                 w\<lparr>trace := trace w @
                      map (\<lambda>ob. Delivered ob v) (members (drop i (observers w)))\<rparr>)"
  using assms
proof (induction n arbitrary: i w)
  case 0
  then show ?case by simp
next
  case (Suc n)
  show ?case
  proof (cases "i < length (observers w)")
    case False
    then show ?thesis by simp
  next
    case True
    then have dr: "drop i (observers w) = observers w ! i # drop (Suc i) (observers w)"
      by (simp add: Cons_nth_drop_Suc)
    show ?thesis
    proof (cases "observers w ! i")
      case None
      with True dr Suc.prems Suc.IH [of "Suc i" w] show ?thesis by simp
    next
      case (Some ob)
      from True Suc.prems(2) obtain k where k: "n = Suc k" by (cases n) auto
      let ?w' = "w\<lparr>trace := trace w @ [Delivered ob v]\<rparr>"
      from Some dr Suc.prems(1) have q: "quiet prog (heap w) v ob" by simp
      have c: "call_next prog n ob v w = Some (Returns (), ?w')"
        unfolding k by (rule call_next_quiet [OF q])
      have "forEach prog n (Suc i) v ?w' =
              Some (Returns (),
                    ?w'\<lparr>trace := trace ?w' @
                          map (\<lambda>ob. Delivered ob v) (members (drop (Suc i) (observers ?w')))\<rparr>)"
        using Suc.prems dr Some True by (intro Suc.IH) auto
      with True Some c dr show ?thesis by simp
    qed
  qed
qed

lemma subject_next_quiet:
  assumes q: "\<forall>ob \<in> set (members (observers w)). quiet prog (heap w) x ob"
    and fuel: "length (observers w) < n"
  shows "subject_next prog n x w =
           Some (Returns (),
                 w\<lparr>hasStarted := True, lastValue := x,
                    trace := trace w @ Emitted x #
                      map (\<lambda>ob. Delivered ob x) (members (observers w))\<rparr>)"
proof -
  let ?w = "w\<lparr>hasStarted := True, lastValue := x, trace := trace w @ [Emitted x]\<rparr>"
  have "forEach prog n 0 x ?w =
          Some (Returns (),
                ?w\<lparr>trace := trace ?w @
                      map (\<lambda>ob. Delivered ob x) (members (drop 0 (observers ?w)))\<rparr>)"
    using q fuel by (intro forEach_quiet) auto
  then show ?thesis by simp
qed

section \<open>Replay on subscribe\<close>

text \<open>
  Claim C1.  Take any world \<open>w\<close> that a client can reach from a new subject, by
  any calls and with any callbacks, in which \<open>next\<close> was called at least once, \<open>v\<close>
  being the value of the most recent call.  Subscribing a listener whose observer
  \<open>ob\<close> is quiet for \<open>v\<close> returns a Subscription for \<open>ob\<close>, and what the call does
  besides registering \<open>ob\<close> is exactly one call \<open>ob.next(v)\<close>: the trace grows by
  that one delivery, so no earlier value is delivered.
\<close>

theorem subject_replays_latest:
  assumes history: "client prog n cs (IndefiniteSubject h) = Some w"
    and emitted: "latest (trace w) = Some v"
    and wrap: "wrapWithObserver l (heap w) = (ob, h')"
    and q: "quiet prog h' v ob"
  shows "subject_subscribe prog (Suc m) l w =
           Some (Returns (Subscription ob),
                 w\<lparr>heap := h', observers := set_add ob (observers w),
                    trace := trace w @ [Delivered ob v]\<rparr>)"
proof -
  from cache_ok_client [OF history] emitted
  have st: "hasStarted w" and lv: "lastValue w = v"
    by (auto simp: cache_ok_def split: if_splits)
  let ?w1 = "w\<lparr>heap := h', observers := set_add ob (observers w)\<rparr>"
  from q have "quiet prog (heap ?w1) v ob" by simp
  from call_next_quiet [OF this, of m]
  show ?thesis using st lv wrap by simp
qed

text \<open>
  The scenario of the specification: after \<open>next(1); next(2)\<close>, subscribing the
  object \<open>{next: f0}\<close> delivers \<open>2\<close> to it and nothing else.
\<close>

theorem subject_replays_latest_witness:
  "client silent 1 [CallNext (Some 1), CallNext (Some 2)] (IndefiniteSubject one_object)
     = Some after_two_emissions \<and>
   latest (trace after_two_emissions) = Some (Some 2) \<and>
   subject_subscribe silent 1 (Ref 0) after_two_emissions =
     Some (Returns (Subscription (Ref 0)),
           after_two_emissions
             \<lparr>observers := [Some (Ref 0)],
              trace := [Emitted (Some 1), Emitted (Some 2), Delivered (Ref 0) (Some 2)]\<rparr>) \<and>
   received (Ref 0)
     [Emitted (Some 1), Emitted (Some 2), Delivered (Ref 0) (Some (2::nat))] = [Some 2]"
proof -
  have run: "client silent 1 [CallNext (Some 1), CallNext (Some 2)] (IndefiniteSubject one_object)
               = Some after_two_emissions"
    by (simp add: IndefiniteSubject_def after_two_emissions_def)
  have em: "latest (trace after_two_emissions) = Some (Some 2)"
    by (simp add: after_two_emissions_def)
  have wr: "wrapWithObserver (Ref 0) (heap after_two_emissions) = (Ref 0, one_object)"
    by (simp add: wrapWithObserver_def after_two_emissions_def)
  have q: "quiet silent one_object (Some 2) (Ref 0)"
    by (simp add: quiet_def next_method_def one_object_def silent_def)
  from subject_replays_latest [OF run em wr q, of 0] run em
  show ?thesis
    by (simp add: after_two_emissions_def set_add_def)
qed

text \<open>
  When the callback of the new observer does call back into the subject, the
  replay still comes first: whatever \<open>subscribe\<close> goes on to do, the first thing it
  adds to the trace is the delivery of the most recent value to the new observer.
\<close>

lemma replay_comes_first:
  assumes history: "client prog n cs (IndefiniteSubject h) = Some w"
    and emitted: "latest (trace w) = Some v"
    and wrap: "wrapWithObserver l (heap w) = (ob, h')"
    and callable: "next_method h' ob = Some f"
    and result: "subject_subscribe prog m l w = Some (r, w')"
  shows "\<exists>rest. trace w' = trace w @ Delivered ob v # rest"
proof -
  from cache_ok_client [OF history] emitted
  have st: "hasStarted w" and lv: "lastValue w = v"
    by (auto simp: cache_ok_def split: if_splits)
  let ?w1 = "w\<lparr>heap := h', observers := set_add ob (observers w)\<rparr>"
  from result st lv wrap obtain r0 where c: "call_next prog m ob v ?w1 = Some (r0, w')"
    by (auto split: option.splits outcome.splits prod.splits)
  then obtain k where m: "m = Suc k" by (cases m) auto
  let ?w2 = "?w1\<lparr>trace := trace ?w1 @ [Delivered ob v]\<rparr>"
  from c callable have rb: "run_body prog k (prog f v) ?w2 = Some (r0, w')"
    unfolding m by simp
  have "(\<lambda>u. \<exists>rest. trace u = trace ?w2 @ rest) w'"
    by (rule preserved(2) [of "\<lambda>u. \<exists>rest. trace u = trace ?w2 @ rest", OF _ _ _ _ rb]) auto
  then show ?thesis by simp
qed

text \<open>
  Claim C8.  Take any world \<open>w\<close> that a client can reach from a new subject
  without \<open>next\<close> ever having been called.  Subscribing any listener, with any
  fuel, returns a Subscription for its observer and leaves the trace as it was:
  nothing is called on the observer.
\<close>

theorem no_replay_before_first_emission:
  assumes history: "client prog n cs (IndefiniteSubject h) = Some w"
    and fresh: "latest (trace w) = None"
    and wrap: "wrapWithObserver l (heap w) = (ob, h')"
  shows "subject_subscribe prog m l w =
           Some (Returns (Subscription ob),
                 w\<lparr>heap := h', observers := set_add ob (observers w)\<rparr>)"
proof -
  from cache_ok_client [OF history] fresh
  have "\<not> hasStarted w"
    by (auto simp: cache_ok_def split: if_splits)
  with wrap show ?thesis by simp
qed

theorem no_replay_before_first_emission_witness:
  "client silent 0 [] (IndefiniteSubject one_object) = Some (IndefiniteSubject one_object) \<and>
   latest (trace (IndefiniteSubject one_object :: nat world)) = None \<and>
   subject_subscribe silent 0 (Fn 7) (IndefiniteSubject one_object) =
     Some (Returns (Subscription (Ref 1)),
           \<lparr>heap = one_object @ [JSObj (Some (Fn 7))], observers = [Some (Ref 1)],
            hasStarted = False, lastValue = None, trace = []\<rparr>)"
proof -
  have run: "client silent 0 [] (IndefiniteSubject one_object) = Some (IndefiniteSubject one_object)"
    by simp
  have fr: "latest (trace (IndefiniteSubject one_object :: nat world)) = None"
    by (simp add: IndefiniteSubject_def)
  have wr: "wrapWithObserver (Fn 7) (heap (IndefiniteSubject one_object :: nat world))
              = (Ref 1, one_object @ [JSObj (Some (Fn 7))])"
    by (simp add: wrapWithObserver_def IndefiniteSubject_def one_object_def)
  from no_replay_before_first_emission [OF run fr wr, of 0] run fr
  show ?thesis
    by (simp add: IndefiniteSubject_def set_add_def)
qed

section \<open>Delivery walks the live set\<close>

lemma set_delete_length [simp]: "length (set_delete x es) = length es"
  by (simp add: set_delete_def)

lemma drop_set_delete:
  "Some x \<notin> set (drop k es) \<Longrightarrow> drop k (set_delete x es) = drop k es"
  by (auto simp: set_delete_def drop_map intro!: map_idI)

lemma run_body_unsubscribes:
  assumes "unsubscribes_only body (drop k (observers w))"
  shows "\<exists>es. run_body prog n body w = Some (Returns (), w\<lparr>observers := es\<rparr>) \<and>
              length es = length (observers w) \<and> drop k es = drop k (observers w)"
  using assms
proof (induction body arbitrary: w)
  case Nil
  have "w\<lparr>observers := observers w\<rparr> = w" by simp
  then show ?case by (intro exI [of _ "observers w"]) simp
next
  case (Cons c body)
  from Cons.prems obtain ob where c: "c = CallUnsubscribe (Subscription ob)"
    and ob: "Some ob \<notin> set (drop k (observers w))"
    and rest: "unsubscribes_only body (drop k (observers w))"
    by (auto simp: unsubscribes_only_def split: cmd.splits subscription.splits)
  let ?w1 = "w\<lparr>observers := set_delete ob (observers w)\<rparr>"
  have d: "drop k (observers ?w1) = drop k (observers w)"
    using ob by (simp add: drop_set_delete)
  with rest have "unsubscribes_only body (drop k (observers ?w1))" by simp
  from Cons.IH [OF this] obtain es where
    "run_body prog n body ?w1 = Some (Returns (), ?w1\<lparr>observers := es\<rparr>)"
    "length es = length (observers ?w1)" "drop k es = drop k (observers ?w1)"
    by blast
  with c d show ?case by (intro exI [of _ es]) simp
qed

lemma forEach_pass_ok:
  assumes "pass_ok prog (heap w) v (drop i (observers w))"
    and "length (observers w) - i < n"
  shows "\<exists>es. forEach prog n i v w =
                Some (Returns (),
                      w\<lparr>observers := es,
                         trace := trace w @
                           map (\<lambda>ob. Delivered ob v) (members (drop i (observers w)))\<rparr>) \<and>
              length es = length (observers w)"
  using assms
proof (induction n arbitrary: i w)
  case 0
  then show ?case by simp
next
  case (Suc n)
  show ?case
  proof (cases "i < length (observers w)")
    case False
    have "w\<lparr>observers := observers w, trace := trace w\<rparr> = w" by simp
    with False show ?thesis by (intro exI [of _ "observers w"]) simp
  next
    case True
    then have dr: "drop i (observers w) = observers w ! i # drop (Suc i) (observers w)"
      by (simp add: Cons_nth_drop_Suc)
    show ?thesis
    proof (cases "observers w ! i")
      case None
      with dr Suc.prems True have "pass_ok prog (heap w) v (drop (Suc i) (observers w))"
        and "length (observers w) - Suc i < n" by auto
      from Suc.IH [OF this] True None dr show ?thesis by simp
    next
      case (Some ob)
      from True Suc.prems(2) obtain k where k: "n = Suc k" by (cases n) auto
      from Some dr Suc.prems(1)
      have st: "settled prog (heap w) v (drop (Suc i) (observers w)) ob"
        and ok: "pass_ok prog (heap w) v (drop (Suc i) (observers w))" by simp_all
      from st obtain f where f: "next_method (heap w) ob = Some f"
        and body: "unsubscribes_only (prog f v) (drop (Suc i) (observers w))"
        by (auto simp: settled_def split: option.splits)
      let ?w0 = "w\<lparr>trace := trace w @ [Delivered ob v]\<rparr>"
      from body have "unsubscribes_only (prog f v) (drop (Suc i) (observers ?w0))" by simp
      from run_body_unsubscribes [OF this, of prog k] obtain es where
        rb: "run_body prog k (prog f v) ?w0 = Some (Returns (), ?w0\<lparr>observers := es\<rparr>)"
        and len: "length es = length (observers w)"
        and dres: "drop (Suc i) es = drop (Suc i) (observers w)"
        by auto
      let ?w' = "?w0\<lparr>observers := es\<rparr>"
      have c: "call_next prog n ob v w = Some (Returns (), ?w')"
        unfolding k using f rb by simp
      have "pass_ok prog (heap ?w') v (drop (Suc i) (observers ?w'))"
        using ok dres by simp
      moreover have "length (observers ?w') - Suc i < n"
        using Suc.prems(2) len True by simp
      ultimately obtain es' where
        fe: "forEach prog n (Suc i) v ?w' =
               Some (Returns (),
                     ?w'\<lparr>observers := es',
                         trace := trace ?w' @
                           map (\<lambda>ob. Delivered ob v) (members (drop (Suc i) (observers ?w')))\<rparr>)"
        and len': "length es' = length (observers ?w')"
        using Suc.IH [of ?w' "Suc i"] by blast
      show ?thesis
        using True Some c fe len len' dres dr by (intro exI [of _ es']) simp
    qed
  qed
qed

lemma subject_next_pass_ok:
  assumes ok: "pass_ok prog (heap w) v (observers w)"
    and fuel: "length (observers w) < n"
  shows "\<exists>es. subject_next prog n v w =
                Some (Returns (),
                      w\<lparr>observers := es, hasStarted := True, lastValue := v,
                         trace := trace w @ Emitted v #
                           map (\<lambda>ob. Delivered ob v) (members (observers w))\<rparr>) \<and>
              length es = length (observers w)"
proof -
  let ?w = "w\<lparr>hasStarted := True, lastValue := v, trace := trace w @ [Emitted v]\<rparr>"
  have "pass_ok prog (heap ?w) v (drop 0 (observers ?w))" using ok by simp
  moreover have "length (observers ?w) - 0 < n" using fuel by simp
  ultimately obtain es where
    "forEach prog n 0 v ?w =
       Some (Returns (),
             ?w\<lparr>observers := es,
                trace := trace ?w @
                  map (\<lambda>ob. Delivered ob v) (members (drop 0 (observers ?w)))\<rparr>)"
    and "length es = length (observers ?w)"
    using forEach_pass_ok [of prog ?w v 0 n] by blast
  then show ?thesis by (intro exI [of _ es]) simp
qed

text \<open>A quiet observer is a special case.\<close>

lemma quiet_settled: "quiet prog h v ob \<Longrightarrow> settled prog h v waiting ob"
  by (auto simp: quiet_def settled_def unsubscribes_only_def split: option.splits)

lemma quiet_pass_ok:
  "\<forall>ob \<in> set (members es). quiet prog h v ob \<Longrightarrow> pass_ok prog h v es"
  by (induction es rule: pass_ok.induct) (auto simp: quiet_settled)

section \<open>Fan-out\<close>

text \<open>
  Claim C4, as the code has it.  Take any world \<open>w\<close> that a client can reach from a new subject, in
  which every subscribed observer's \<open>next\<close>, called with \<open>x\<close>, returns and does
  nothing to the subject, or at most unsubscribes observers that are not waiting
  behind it in the pass (itself, for one).  With fuel for one pass, \<open>next(x)\<close>
  returns, and in the world it returns in every observer that was subscribed has
  received \<open>x\<close> exactly once more, after the emission and in the order of the set,
  while an observer that was not subscribed has received nothing.
\<close>

theorem fan_out:
  assumes history: "client prog k cs (IndefiniteSubject h) = Some w"
    and ok: "pass_ok prog (heap w) x (observers w)"
    and fuel: "length (observers w) < n"
  shows "\<exists>w'. subject_next prog n x w = Some (Returns (), w') \<and>
              trace w' = trace w @ Emitted x #
                map (\<lambda>ob. Delivered ob x) (members (observers w)) \<and>
              (\<forall>ob \<in> set (members (observers w)).
                  received ob (trace w') = received ob (trace w) @ [x]) \<and>
              (\<forall>ob. ob \<notin> set (members (observers w)) \<longrightarrow>
                  received ob (trace w') = received ob (trace w))"
proof -
  have d: "distinct (members (observers w))" by (rule distinct_client [OF history])
  from subject_next_pass_ok [OF ok fuel] obtain es where
    nx: "subject_next prog n x w =
       Some (Returns (),
             w\<lparr>observers := es, hasStarted := True, lastValue := x,
                trace := trace w @ Emitted x #
                  map (\<lambda>ob. Delivered ob x) (members (observers w))\<rparr>)"
    by blast
  show ?thesis
    unfolding nx
    by (simp add: received_deliveries_once [OF d] received_deliveries_absent)
qed

text \<open>Two subscribers A and B: \<open>next(5)\<close> calls A with 5 and then B with 5, once each.\<close>

theorem fan_out_witness:
  "client silent 0 [CallSubscribe (Ref 0), CallSubscribe (Ref 1)] (IndefiniteSubject two_objects)
     = Some two_subscribers \<and>
   subject_next silent 3 (Some 5) two_subscribers =
     Some (Returns (),
           two_subscribers
             \<lparr>hasStarted := True, lastValue := Some 5,
              trace := [Emitted (Some 5), Delivered (Ref 0) (Some 5),
                        Delivered (Ref 1) (Some 5)]\<rparr>) \<and>
   received (Ref 0) [Emitted (Some 5), Delivered (Ref 0) (Some 5),
                     Delivered (Ref 1) (Some (5::nat))] = [Some 5] \<and>
   received (Ref 1) [Emitted (Some 5), Delivered (Ref 0) (Some 5),
                     Delivered (Ref 1) (Some (5::nat))] = [Some 5]"
proof -
  let ?t = "[Emitted (Some 5), Delivered (Ref 0) (Some 5), Delivered (Ref 1) (Some (5::nat))]"
  let ?W = "two_subscribers\<lparr>hasStarted := True, lastValue := Some 5, trace := ?t\<rparr>"
  have run: "client silent 0 [CallSubscribe (Ref 0), CallSubscribe (Ref 1)]
               (IndefiniteSubject two_objects) = Some two_subscribers"
    by (simp add: IndefiniteSubject_def two_subscribers_def wrapWithObserver_def set_add_def)
  have ok: "pass_ok silent (heap two_subscribers) (Some 5) (observers two_subscribers)"
    by (simp add: two_subscribers_def settled_def unsubscribes_only_def next_method_def
          two_objects_def silent_def)
  have fuel: "length (observers two_subscribers) < 3"
    by (simp add: two_subscribers_def)
  have ev: "subject_next silent 3 (Some 5) two_subscribers = Some (Returns (), ?W)"
    by (simp add: two_subscribers_def next_method_def two_objects_def silent_def
          eval_nat_numeral)
  from fan_out [OF run ok fuel] obtain w' where
    nx: "subject_next silent 3 (Some 5) two_subscribers = Some (Returns (), w')"
    and rc: "\<forall>ob \<in> set (members (observers two_subscribers)).
               received ob (trace w') = received ob (trace two_subscribers) @ [Some 5]"
    by blast
  from nx ev have w': "w' = ?W" by simp
  have m: "members (observers two_subscribers) = [Ref 0, Ref 1]"
    by (simp add: two_subscribers_def)
  from rc m have "received (Ref 0) (trace w') = received (Ref 0) (trace two_subscribers) @ [Some 5]"
    by simp
  then have r0: "received (Ref 0) ?t = [Some 5]"
    unfolding w' by (simp add: two_subscribers_def)
  from rc m have "received (Ref 1) (trace w') = received (Ref 1) (trace two_subscribers) @ [Some 5]"
    by simp
  then have r1: "received (Ref 1) ?t = [Some 5]"
    unfolding w' by (simp add: two_subscribers_def)
  show ?thesis by (intro conjI run ev r0 r1)
qed

text \<open>
  Claim C4 as stated, for every subscriber whatever its callback does, fails.  A
  new subject, A and B subscribed in this order.  When A's callback unsubscribes
  B, \<open>next(7)\<close> returns and B, subscribed when it was called, has received
  nothing.  When A's callback subscribes B again, \<open>next(7)\<close> returns and B has
  received 7 twice, once as the replay of \<open>subscribe\<close> and once by \<open>forEach\<close>.
\<close>

theorem fan_out_counterexample:
  "client remover 0 [CallSubscribe (Ref 0), CallSubscribe (Ref 1)] (IndefiniteSubject two_objects)
     = Some two_subscribers \<and>
   Ref 1 \<in> set (members (observers two_subscribers)) \<and>
   subject_next remover 3 (Some 7) two_subscribers =
     Some (Returns (),
           \<lparr>heap = two_objects, observers = [Some (Ref 0), None], hasStarted = True,
            lastValue = Some 7,
            trace = [Emitted (Some 7), Delivered (Ref 0) (Some 7)]\<rparr>) \<and>
   received (Ref 1) [Emitted (Some 7), Delivered (Ref 0) (Some (7::nat))] = [] \<and>
   client resubscriber 0 [CallSubscribe (Ref 0), CallSubscribe (Ref 1)]
     (IndefiniteSubject two_objects) = Some two_subscribers \<and>
   subject_next resubscriber 4 (Some 7) two_subscribers =
     Some (Returns (),
           \<lparr>heap = two_objects, observers = [Some (Ref 0), Some (Ref 1)], hasStarted = True,
            lastValue = Some 7,
            trace = [Emitted (Some 7), Delivered (Ref 0) (Some 7), Delivered (Ref 1) (Some 7),
                     Delivered (Ref 1) (Some 7)]\<rparr>) \<and>
   received (Ref 1) [Emitted (Some 7), Delivered (Ref 0) (Some 7), Delivered (Ref 1) (Some 7),
                     Delivered (Ref 1) (Some (7::nat))] = [Some 7, Some 7]"
  by (simp add: IndefiniteSubject_def two_subscribers_def two_objects_def remover_def
        resubscriber_def next_method_def set_delete_def set_add_def wrapWithObserver_def
        eval_nat_numeral)

section \<open>Re-entrant calls during a pass\<close>

text \<open>
  Claim C3, as the code has it.  \<open>next\<close> takes no snapshot: \<open>forEach\<close> walks the
  live set.  If every subscribed observer, when its turn comes, at most
  unsubscribes observers that are not waiting behind it in the pass (itself, an
  observer already visited, an observer that is not subscribed), then \<open>next(v)\<close>
  returns and the observers called in the pass are exactly the members of the set
  at the start of the call, each once and in the order of the set.
\<close>

theorem pass_visits_start_set:
  assumes ok: "pass_ok prog (heap w) v (observers w)"
    and fuel: "length (observers w) < n"
  shows "\<exists>w'. subject_next prog n v w = Some (Returns (), w') \<and>
              notified (drop (length (trace w)) (trace w')) = members (observers w)"
proof -
  from subject_next_pass_ok [OF ok fuel] obtain es where
    "subject_next prog n v w =
       Some (Returns (),
             w\<lparr>observers := es, hasStarted := True, lastValue := v,
                trace := trace w @ Emitted v #
                  map (\<lambda>ob. Delivered ob v) (members (observers w))\<rparr>)"
    by blast
  then show ?thesis by simp
qed

theorem pass_visits_start_set_witness:
  "pass_ok leaver (heap two_subscribers) (Some 7) (observers two_subscribers) \<and>
   subject_next leaver 3 (Some 7) two_subscribers =
     Some (Returns (),
           \<lparr>heap = two_objects, observers = [None, Some (Ref 1)], hasStarted = True,
            lastValue = Some 7,
            trace = [Emitted (Some 7), Delivered (Ref 0) (Some 7),
                     Delivered (Ref 1) (Some 7)]\<rparr>) \<and>
   notified [Emitted (Some 7), Delivered (Ref 0) (Some 7), Delivered (Ref 1) (Some (7::nat))]
     = members (observers two_subscribers)"
proof -
  let ?t = "[Emitted (Some 7), Delivered (Ref 0) (Some 7), Delivered (Ref 1) (Some (7::nat))]"
  let ?W = "\<lparr>heap = two_objects, observers = [None, Some (Ref 1)], hasStarted = True,
             lastValue = Some 7, trace = ?t\<rparr>"
  have ok: "pass_ok leaver (heap two_subscribers) (Some 7) (observers two_subscribers)"
    by (simp add: two_subscribers_def two_objects_def settled_def unsubscribes_only_def
          next_method_def leaver_def)
  have fuel: "length (observers two_subscribers) < 3"
    by (simp add: two_subscribers_def)
  have ev: "subject_next leaver 3 (Some 7) two_subscribers = Some (Returns (), ?W)"
    by (simp add: two_subscribers_def two_objects_def leaver_def next_method_def set_delete_def
          eval_nat_numeral)
  from pass_visits_start_set [OF ok fuel] obtain w' where
    nx: "subject_next leaver 3 (Some 7) two_subscribers = Some (Returns (), w')"
    and nt: "notified (drop (length (trace two_subscribers)) (trace w'))
               = members (observers two_subscribers)"
    by blast
  from nx ev have "w' = ?W" by simp
  with nt have n: "notified ?t = members (observers two_subscribers)"
    by (simp add: two_subscribers_def)
  show ?thesis by (intro conjI ok ev n)
qed

text \<open>
  Claim C3 as stated fails.  A new subject, A and B subscribed in this order,
  and A's callback unsubscribes B: the pass of \<open>next(7)\<close> calls A only, although
  B was subscribed when the call started.  A new subject, A and B subscribed, and
  A's callback subscribes C: C was not subscribed when the call started, and the
  same pass calls it twice, once as the replay of \<open>subscribe\<close> and once by
  \<open>forEach\<close>.
\<close>

theorem live_iteration_counterexample:
  "client remover 0 [CallSubscribe (Ref 0), CallSubscribe (Ref 1)] (IndefiniteSubject two_objects)
     = Some two_subscribers \<and>
   members (observers two_subscribers) = [Ref 0, Ref 1] \<and>
   subject_next remover 3 (Some 7) two_subscribers =
     Some (Returns (),
           \<lparr>heap = two_objects, observers = [Some (Ref 0), None], hasStarted = True,
            lastValue = Some 7,
            trace = [Emitted (Some 7), Delivered (Ref 0) (Some 7)]\<rparr>) \<and>
   Ref 1 \<in> set (members (observers two_subscribers)) \<and>
   Ref 1 \<notin> set (notified [Emitted (Some 7), Delivered (Ref 0) (Some (7::nat))]) \<and>
   client recruiter 0 [CallSubscribe (Ref 0), CallSubscribe (Ref 1)]
     (IndefiniteSubject three_objects) = Some two_of_three \<and>
   members (observers two_of_three) = [Ref 0, Ref 1] \<and>
   subject_next recruiter 5 (Some 7) two_of_three =
     Some (Returns (),
           \<lparr>heap = three_objects, observers = [Some (Ref 0), Some (Ref 1), Some (Ref 2)],
            hasStarted = True, lastValue = Some 7,
            trace = [Emitted (Some 7), Delivered (Ref 0) (Some 7), Delivered (Ref 2) (Some 7),
                     Delivered (Ref 1) (Some 7), Delivered (Ref 2) (Some 7)]\<rparr>) \<and>
   Ref 2 \<notin> set (members (observers two_of_three)) \<and>
   Ref 2 \<in> set (notified [Emitted (Some 7), Delivered (Ref 0) (Some 7),
                           Delivered (Ref 2) (Some 7), Delivered (Ref 1) (Some 7),
                           Delivered (Ref 2) (Some (7::nat))])"
  by (simp add: IndefiniteSubject_def two_subscribers_def two_of_three_def two_objects_def
        three_objects_def remover_def recruiter_def next_method_def set_delete_def set_add_def
        wrapWithObserver_def eval_nat_numeral)

section \<open>A throwing observer\<close>

lemma call_next_throws_at_once:
  assumes "throws_at_once prog (heap w) v ob = Some e"
  shows "call_next prog (Suc n) ob v w =
           Some (Throws e, w\<lparr>trace := trace w @ attempt (heap w) ob v\<rparr>)"
  using assms
  by (auto simp: throws_at_once_def attempt_def
           split: option.splits list.splits cmd.splits)

lemma forEach_aborts:
  assumes "drop i (observers w) = pre @ Some ob # post"
    and "\<forall>a \<in> set (members pre). quiet prog (heap w) v a"
    and "throws_at_once prog (heap w) v ob = Some e"
    and "length pre + 1 < n"
  shows "forEach prog n i v w =
           Some (Throws e,
                 w\<lparr>trace := trace w @ map (\<lambda>a. Delivered a v) (members pre) @
                      attempt (heap w) ob v\<rparr>)"
  using assms
proof (induction pre arbitrary: i w n)
  case Nil
  from Nil.prems(4) obtain k where n: "n = Suc (Suc k)"
    by (cases n; cases "n - 1") auto
  from Nil.prems(1) have i: "i < length (observers w)"
    by (cases "i < length (observers w)") auto
  with Nil.prems(1) have "observers w ! i = Some ob"
    by (metis Cons_nth_drop_Suc append_Nil list.inject)
  with i show ?case
    unfolding n
    by (simp add: call_next_throws_at_once [OF Nil.prems(3)] del: call_next.simps)
next
  case (Cons a pre)
  from Cons.prems(4) obtain k where n: "n = Suc (Suc k)"
    by (cases n; cases "n - 1") auto
  from Cons.prems(1) have i: "i < length (observers w)"
    by (cases "i < length (observers w)") auto
  with Cons.prems(1) have a: "observers w ! i = a"
    and dr: "drop (Suc i) (observers w) = pre @ Some ob # post"
    by (metis Cons_nth_drop_Suc append_Cons list.inject)+
  show ?case
  proof (cases a)
    case None
    with Cons.prems have "forEach prog (Suc k) (Suc i) v w =
        Some (Throws e,
              w\<lparr>trace := trace w @ map (\<lambda>a. Delivered a v) (members pre) @
                   attempt (heap w) ob v\<rparr>)"
      unfolding n by (intro Cons.IH [OF dr]) auto
    with i a None show ?thesis unfolding n by simp
  next
    case (Some x)
    let ?w' = "w\<lparr>trace := trace w @ [Delivered x v]\<rparr>"
    from Some Cons.prems(2) have q: "quiet prog (heap w) v x" by simp
    have c: "call_next prog (Suc k) x v w = Some (Returns (), ?w')"
      by (rule call_next_quiet [OF q])
    have "forEach prog (Suc k) (Suc i) v ?w' =
        Some (Throws e,
              ?w'\<lparr>trace := trace ?w' @ map (\<lambda>a. Delivered a v) (members pre) @
                   attempt (heap ?w') ob v\<rparr>)"
      using Cons.prems dr Some unfolding n by (intro Cons.IH) auto
    with i a Some c show ?thesis unfolding n by (simp del: call_next.simps)
  qed
qed

text \<open>
  Claim C7.  Let the set be \<open>pre\<close>, then \<open>ob\<close>, then \<open>post\<close>, with the observers of
  \<open>pre\<close> quiet for \<open>v\<close> and \<open>ob\<close> throwing \<open>e\<close> at once.  Then \<open>next(v)\<close> throws
  \<open>e\<close> to its caller; the pass has called the observers of \<open>pre\<close> and entered
  \<open>ob\<close> (if its \<open>next\<close> is a function), and that is all: no other observer, in
  particular none of \<open>post\<close>, has received anything.
\<close>

theorem multicast_aborts_on_throw:
  assumes split: "observers w = pre @ Some ob # post"
    and q: "\<forall>a \<in> set (members pre). quiet prog (heap w) v a"
    and t: "throws_at_once prog (heap w) v ob = Some e"
    and fuel: "length pre + 1 < n"
  shows "\<exists>w'. subject_next prog n v w = Some (Throws e, w') \<and>
              trace w' = trace w @ Emitted v # map (\<lambda>a. Delivered a v) (members pre) @
                           attempt (heap w) ob v \<and>
              (\<forall>b. b \<notin> set (members pre) \<and> b \<noteq> ob \<longrightarrow>
                    received b (trace w') = received b (trace w))"
proof -
  let ?w = "w\<lparr>hasStarted := True, lastValue := v, trace := trace w @ [Emitted v]\<rparr>"
  have "forEach prog n 0 v ?w =
          Some (Throws e,
                ?w\<lparr>trace := trace ?w @ map (\<lambda>a. Delivered a v) (members pre) @
                     attempt (heap ?w) ob v\<rparr>)"
    using split q t fuel by (intro forEach_aborts [where post = post]) auto
  then show ?thesis
    by (auto simp: received_deliveries_absent attempt_def split: option.splits)
qed

theorem multicast_aborts_on_throw_witness:
  "observers three_subscribers = [Some (Ref 0)] @ Some (Ref 1) # [Some (Ref 2)] \<and>
   throws_at_once faulty (heap three_subscribers) (Some 7) (Ref 1) = Some (UserError 0) \<and>
   subject_next faulty 3 (Some 7) three_subscribers =
     Some (Throws (UserError 0),
           three_subscribers
             \<lparr>hasStarted := True, lastValue := Some 7,
              trace := [Emitted (Some 7), Delivered (Ref 0) (Some 7),
                        Delivered (Ref 1) (Some 7)]\<rparr>) \<and>
   received (Ref 2) [Emitted (Some 7), Delivered (Ref 0) (Some 7),
                     Delivered (Ref 1) (Some (7::nat))] = []"
proof -
  let ?t = "[Emitted (Some 7), Delivered (Ref 0) (Some 7), Delivered (Ref 1) (Some (7::nat))]"
  let ?W = "three_subscribers\<lparr>hasStarted := True, lastValue := Some 7, trace := ?t\<rparr>"
  have sp: "observers three_subscribers = [Some (Ref 0)] @ Some (Ref 1) # [Some (Ref 2)]"
    by (simp add: three_subscribers_def)
  have q: "\<forall>a \<in> set (members [Some (Ref 0)]). quiet faulty (heap three_subscribers) (Some 7) a"
    by (simp add: three_subscribers_def three_objects_def quiet_def next_method_def faulty_def)
  have t: "throws_at_once faulty (heap three_subscribers) (Some 7) (Ref 1) = Some (UserError 0)"
    by (simp add: three_subscribers_def three_objects_def throws_at_once_def next_method_def
          faulty_def)
  have fuel: "length [Some (Ref 0)] + 1 < (3::nat)" by simp
  have ev: "subject_next faulty 3 (Some 7) three_subscribers = Some (Throws (UserError 0), ?W)"
    by (simp add: three_subscribers_def three_objects_def faulty_def next_method_def
          eval_nat_numeral)
  from multicast_aborts_on_throw [OF sp q t fuel] obtain w' where
    nx: "subject_next faulty 3 (Some 7) three_subscribers = Some (Throws (UserError 0), w')"
    and rc: "\<forall>b. b \<notin> set (members [Some (Ref 0)]) \<and> b \<noteq> Ref 1 \<longrightarrow>
               received b (trace w') = received b (trace three_subscribers)"
    by blast
  from nx ev have w': "w' = ?W" by simp
  from rc have "received (Ref 2) (trace w') = received (Ref 2) (trace three_subscribers)"
    by simp
  then have r: "received (Ref 2) ?t = []"
    unfolding w' by (simp add: three_subscribers_def)
  show ?thesis by (intro conjI sp t ev r)
qed

text \<open>
  The same for an observer that throws after calling back into the subject: if
  its call throws \<open>e\<close> in the world \<open>w'\<close>, then \<open>next\<close> throws \<open>e\<close> in that very
  world, so the pass does nothing after the throw.
\<close>

lemma forEach_stops_at_throw:
  assumes "drop i (observers w) = pre @ Some ob # post"
    and "\<forall>a \<in> set (members pre). quiet prog (heap w) v a"
    and "call_next prog k ob v
           (w\<lparr>trace := trace w @ map (\<lambda>a. Delivered a v) (members pre)\<rparr>) = Some (Throws e, w')"
  shows "forEach prog (length pre + k + 1) i v w = Some (Throws e, w')"
  using assms
proof (induction pre arbitrary: i w)
  case Nil
  from Nil.prems(1) have i: "i < length (observers w)"
    by (cases "i < length (observers w)") auto
  with Nil.prems(1) have "observers w ! i = Some ob"
    by (metis Cons_nth_drop_Suc append_Nil list.inject)
  with i Nil.prems(3) show ?case by simp
next
  case (Cons a pre)
  from Cons.prems(1) have i: "i < length (observers w)"
    by (cases "i < length (observers w)") auto
  with Cons.prems(1) have a: "observers w ! i = a"
    and dr: "drop (Suc i) (observers w) = pre @ Some ob # post"
    by (metis Cons_nth_drop_Suc append_Cons list.inject)+
  show ?case
  proof (cases a)
    case None
    with Cons.prems have "forEach prog (length pre + k + 1) (Suc i) v w = Some (Throws e, w')"
      by (intro Cons.IH [OF dr]) auto
    with i a None show ?thesis by simp
  next
    case (Some x)
    let ?w1 = "w\<lparr>trace := trace w @ [Delivered x v]\<rparr>"
    from Some Cons.prems(2) have q: "quiet prog (heap w) v x" by simp
    have c: "call_next prog (Suc (length pre + k)) x v w = Some (Returns (), ?w1)"
      by (rule call_next_quiet [OF q])
    have "forEach prog (length pre + k + 1) (Suc i) v ?w1 = Some (Throws e, w')"
      using Cons.prems dr Some by (intro Cons.IH) auto
    with i a Some c show ?thesis by (simp del: call_next.simps)
  qed
qed

lemma multicast_stops_at_throw:
  assumes split: "observers w = pre @ Some ob # post"
    and q: "\<forall>a \<in> set (members pre). quiet prog (heap w) v a"
    and thrown: "call_next prog k ob v
           (w\<lparr>hasStarted := True, lastValue := v,
              trace := trace w @ Emitted v # map (\<lambda>a. Delivered a v) (members pre)\<rparr>)
             = Some (Throws e, w')"
  shows "subject_next prog (length pre + k + 1) v w = Some (Throws e, w')"
proof -
  let ?w = "w\<lparr>hasStarted := True, lastValue := v, trace := trace w @ [Emitted v]\<rparr>"
  have "forEach prog (length pre + k + 1) 0 v ?w = Some (Throws e, w')"
    using split q thrown by (intro forEach_stops_at_throw [where post = post]) auto
  then show ?thesis by simp
qed

text \<open>
  Claim C6.  In a started subject, subscribing a listener whose observer \<open>ob\<close>
  throws \<open>e\<close> at once on the cached value throws \<open>e\<close> to the caller of
  \<open>subscribe\<close>, and in the world the call leaves behind \<open>ob\<close> is a member of the
  set of observers: it was added before the replay, and nothing takes it out.
\<close>

theorem subscribe_registers_before_replay:
  assumes started: "hasStarted w"
    and wrap: "wrapWithObserver l (heap w) = (ob, h')"
    and t: "throws_at_once prog h' (lastValue w) ob = Some e"
  shows "\<exists>w'. subject_subscribe prog (Suc n) l w = Some (Throws e, w') \<and>
              ob \<in> set (members (observers w')) \<and>
              trace w' = trace w @ attempt h' ob (lastValue w)"
proof -
  let ?w1 = "w\<lparr>heap := h', observers := set_add ob (observers w)\<rparr>"
  from t have "throws_at_once prog (heap ?w1) (lastValue ?w1) ob = Some e" by simp
  from call_next_throws_at_once [OF this, of n] started wrap
  show ?thesis by (simp add: members_set_add)
qed

theorem subscribe_registers_before_replay_witness:
  "hasStarted started \<and>
   throws_at_once faulty two_objects (lastValue started) (Ref 1) = Some (UserError 0) \<and>
   subject_subscribe faulty (Suc 0) (Ref 1) started =
     Some (Throws (UserError 0),
           started\<lparr>observers := [Some (Ref 1)],
                   trace := [Emitted (Some 2), Delivered (Ref 1) (Some 2)]\<rparr>) \<and>
   Ref 1 \<in> set (members [Some (Ref 1)])"
proof -
  let ?W = "started\<lparr>observers := [Some (Ref 1)],
                   trace := [Emitted (Some 2), Delivered (Ref 1) (Some 2)]\<rparr>"
  have st: "hasStarted started" by (simp add: started_def)
  have wr: "wrapWithObserver (Ref 1) (heap started) = (Ref 1, two_objects)"
    by (simp add: wrapWithObserver_def started_def)
  have t: "throws_at_once faulty two_objects (lastValue started) (Ref 1) = Some (UserError 0)"
    by (simp add: started_def two_objects_def throws_at_once_def next_method_def faulty_def)
  have ev: "subject_subscribe faulty (Suc 0) (Ref 1) started = Some (Throws (UserError 0), ?W)"
    by (simp add: started_def two_objects_def next_method_def faulty_def wrapWithObserver_def
          set_add_def)
  from subscribe_registers_before_replay [OF st wr t, of 0] obtain w' where
    s: "subject_subscribe faulty (Suc 0) (Ref 1) started = Some (Throws (UserError 0), w')"
    and m: "Ref 1 \<in> set (members (observers w'))"
    by blast
  from s ev have "w' = ?W" by simp
  with m have m': "Ref 1 \<in> set (members [Some (Ref 1)])" by simp
  show ?thesis by (intro conjI st t ev m')
qed

section \<open>The same object subscribed twice\<close>

lemma subject_subscribe_quiet:
  assumes wrap: "wrapWithObserver l (heap w) = (ob, h')"
    and q: "quiet prog h' (lastValue w) ob"
  shows "subject_subscribe prog (Suc m) l w =
           Some (Returns (Subscription ob),
                 w\<lparr>heap := h', observers := set_add ob (observers w),
                    trace := trace w @
                      (if hasStarted w then [Delivered ob (lastValue w)] else [])\<rparr>)"
proof -
  let ?w1 = "w\<lparr>heap := h', observers := set_add ob (observers w)\<rparr>"
  from q have "quiet prog (heap ?w1) (lastValue ?w1) ob" by simp
  from call_next_quiet [OF this, of m] wrap
  show ?thesis by (simp del: call_next.simps add: Let_def)
qed

lemma count_list_distinct:
  "distinct xs \<Longrightarrow> x \<in> set xs \<Longrightarrow> count_list xs x = 1"
  by (induction xs) (auto simp: count_list_0_iff)

lemma set_add_length: "length (set_add x es) \<le> Suc (length es)"
  by (simp add: set_add_def)

lemma set_add_idem [simp]: "set_add x (set_add x es) = set_add x es"
  by (simp add: set_add_def)

text \<open>
  Claim C9.  Take any world \<open>w\<close> that a client can reach from a new subject, and
  an observer object at address \<open>r\<close> that is quiet, like the observers already
  subscribed.  Subscribing the object twice returns two Subscriptions (both
  closures over the same observer, hence the same value here) and leaves it in the
  set once; a following \<open>next(v)\<close> calls it exactly once; and after \<open>unsubscribe\<close>
  on the Subscription it is not in the set and \<open>next(v)\<close> does not call it.
\<close>

theorem same_object_subscribed_once:
  assumes history: "client prog k cs (IndefiniteSubject h) = Some w"
    and replay_quiet: "quiet prog (heap w) (lastValue w) (Ref r)"
    and all_quiet: "\<forall>ob \<in> set (Ref r # members (observers w)). quiet prog (heap w) v ob"
    and fuel: "length (observers w) + 1 < n"
  shows "\<exists>w1 w2 w3 w4.
           subject_subscribe prog n (Ref r) w = Some (Returns (Subscription (Ref r)), w1) \<and>
           subject_subscribe prog n (Ref r) w1 = Some (Returns (Subscription (Ref r)), w2) \<and>
           count_list (members (observers w2)) (Ref r) = 1 \<and>
           subject_next prog n v w2 = Some (Returns (), w3) \<and>
           received (Ref r) (trace w3) = received (Ref r) (trace w2) @ [v] \<and>
           Ref r \<notin> set (members (observers (subject_unsubscribe (Subscription (Ref r)) w2))) \<and>
           subject_next prog n v (subject_unsubscribe (Subscription (Ref r)) w2)
             = Some (Returns (), w4) \<and>
           received (Ref r) (trace w4) = received (Ref r) (trace w2)"
proof -
  from fuel obtain m where n: "n = Suc m" by (cases n) auto
  let ?es = "set_add (Ref r) (observers w)"
  let ?t1 = "trace w @ (if hasStarted w then [Delivered (Ref r) (lastValue w)] else [])"
  let ?w1 = "w\<lparr>heap := heap w, observers := ?es, trace := ?t1\<rparr>"
  let ?t2 = "?t1 @ (if hasStarted w then [Delivered (Ref r) (lastValue w)] else [])"
  let ?w2 = "?w1\<lparr>heap := heap w, observers := ?es, trace := ?t2\<rparr>"
  have wr: "wrapWithObserver (Ref r) (heap w) = (Ref r, heap w)"
    by (simp add: wrapWithObserver_def)
  have s1: "subject_subscribe prog n (Ref r) w = Some (Returns (Subscription (Ref r)), ?w1)"
    unfolding n by (rule subject_subscribe_quiet [OF wr replay_quiet])
  have wr1: "wrapWithObserver (Ref r) (heap ?w1) = (Ref r, heap w)"
    by (simp add: wrapWithObserver_def)
  have q1: "quiet prog (heap w) (lastValue ?w1) (Ref r)"
    using replay_quiet by simp
  have s2: "subject_subscribe prog n (Ref r) ?w1 = Some (Returns (Subscription (Ref r)), ?w2)"
    unfolding n using subject_subscribe_quiet [OF wr1 q1, of m] by simp
  have d: "distinct (members (observers w))" by (rule distinct_client [OF history])
  have mem: "members ?es = (if Ref r \<in> set (members (observers w)) then members (observers w)
                            else members (observers w) @ [Ref r])"
    by (rule members_set_add)
  from d mem have d2: "distinct (members ?es)" by auto
  from mem have in2: "Ref r \<in> set (members ?es)" by auto
  have c: "count_list (members (observers ?w2)) (Ref r) = 1"
    using count_list_distinct [OF d2 in2] by simp
  have q2: "\<forall>ob \<in> set (members (observers ?w2)). quiet prog (heap ?w2) v ob"
    using all_quiet mem by auto
  have f2: "length (observers ?w2) < n"
    using fuel set_add_length [of "Ref r" "observers w"] by simp
  have s3: "subject_next prog n v ?w2 =
              Some (Returns (),
                    ?w2\<lparr>hasStarted := True, lastValue := v,
                        trace := trace ?w2 @ Emitted v #
                          map (\<lambda>ob. Delivered ob v) (members (observers ?w2))\<rparr>)"
    by (rule subject_next_quiet [OF q2 f2])
  let ?w3 = "?w2\<lparr>hasStarted := True, lastValue := v,
                  trace := trace ?w2 @ Emitted v #
                    map (\<lambda>ob. Delivered ob v) (members (observers ?w2))\<rparr>"
  have r3: "received (Ref r) (trace ?w3) = received (Ref r) (trace ?w2) @ [v]"
    using received_deliveries_once [OF d2 in2, of v] by simp
  let ?u = "subject_unsubscribe (Subscription (Ref r)) ?w2"
  have mu: "members (observers ?u) = removeAll (Ref r) (members ?es)"
    by (simp add: members_set_delete)
  then have out: "Ref r \<notin> set (members (observers ?u))" by simp
  have qu: "\<forall>ob \<in> set (members (observers ?u)). quiet prog (heap ?u) v ob"
    using all_quiet mem mu by auto
  have fu: "length (observers ?u) < n"
    using f2 by (simp add: set_delete_def)
  let ?w4 = "?u\<lparr>hasStarted := True, lastValue := v,
                 trace := trace ?u @ Emitted v #
                   map (\<lambda>ob. Delivered ob v) (members (observers ?u))\<rparr>"
  have s4: "subject_next prog n v ?u = Some (Returns (), ?w4)"
    by (rule subject_next_quiet [OF qu fu])
  have r4: "received (Ref r) (trace ?w4) = received (Ref r) (trace ?w2)"
    using received_deliveries_absent [OF out, of v] by simp
  from s1 s2 c s3 r3 out s4 r4 show ?thesis by blast
qed

theorem same_object_subscribed_once_witness:
  "client silent 0 [] (IndefiniteSubject one_object) = Some (IndefiniteSubject one_object) \<and>
   subject_subscribe silent 2 (Ref 0) (IndefiniteSubject one_object) =
     Some (Returns (Subscription (Ref 0)), one_subscriber) \<and>
   subject_subscribe silent 2 (Ref 0) one_subscriber =
     Some (Returns (Subscription (Ref 0)), one_subscriber) \<and>
   count_list (members (observers one_subscriber)) (Ref 0) = 1 \<and>
   subject_next silent 2 (Some 5) one_subscriber =
     Some (Returns (),
           one_subscriber\<lparr>hasStarted := True, lastValue := Some 5,
              trace := [Emitted (Some 5), Delivered (Ref 0) (Some 5)]\<rparr>) \<and>
   subject_next silent 2 (Some 5) (subject_unsubscribe (Subscription (Ref 0)) one_subscriber) =
     Some (Returns (),
           one_subscriber\<lparr>observers := [None], hasStarted := True, lastValue := Some 5,
              trace := [Emitted (Some 5)]\<rparr>)"
proof -
  let ?w = "IndefiniteSubject one_object :: nat world"
  have run: "client silent 0 [] ?w = Some ?w" by simp
  have rq: "quiet silent (heap ?w) (lastValue ?w) (Ref 0)"
    by (simp add: IndefiniteSubject_def one_object_def quiet_def next_method_def silent_def)
  have aq: "\<forall>ob \<in> set (Ref 0 # members (observers ?w)). quiet silent (heap ?w) (Some 5) ob"
    by (simp add: IndefiniteSubject_def one_object_def quiet_def next_method_def silent_def)
  have fuel: "length (observers ?w) + 1 < 2" by (simp add: IndefiniteSubject_def)
  have e1: "subject_subscribe silent 2 (Ref 0) ?w =
              Some (Returns (Subscription (Ref 0)), one_subscriber)"
    by (simp add: IndefiniteSubject_def one_subscriber_def wrapWithObserver_def set_add_def)
  have e2: "subject_subscribe silent 2 (Ref 0) one_subscriber =
              Some (Returns (Subscription (Ref 0)), one_subscriber)"
    by (simp add: one_subscriber_def wrapWithObserver_def set_add_def)
  have e3: "subject_next silent 2 (Some 5) one_subscriber =
     Some (Returns (),
           one_subscriber\<lparr>hasStarted := True, lastValue := Some 5,
              trace := [Emitted (Some 5), Delivered (Ref 0) (Some 5)]\<rparr>)"
    by (simp add: one_subscriber_def one_object_def next_method_def silent_def eval_nat_numeral)
  have e4: "subject_next silent 2 (Some 5)
              (subject_unsubscribe (Subscription (Ref 0)) one_subscriber) =
     Some (Returns (),
           one_subscriber\<lparr>observers := [None], hasStarted := True, lastValue := Some 5,
              trace := [Emitted (Some 5)]\<rparr>)"
    by (simp add: one_subscriber_def set_delete_def eval_nat_numeral)
  from same_object_subscribed_once [OF run rq aq fuel] obtain w1 w2 where
    s1: "subject_subscribe silent 2 (Ref 0) ?w = Some (Returns (Subscription (Ref 0)), w1)"
    and s2: "subject_subscribe silent 2 (Ref 0) w1 = Some (Returns (Subscription (Ref 0)), w2)"
    and c: "count_list (members (observers w2)) (Ref 0) = 1"
    by blast
  from s1 e1 have "w1 = one_subscriber" by simp
  with s2 e2 have "w2 = one_subscriber" by simp
  with c have c': "count_list (members (observers one_subscriber)) (Ref 0) = 1" by simp
  show ?thesis by (intro conjI run e1 e2 c' e3 e4)
qed

section \<open>Subscriptions of an observable\<close>

lemma connect_calls_append [simp]:
  "connect_calls (xs @ ys) = connect_calls xs @ connect_calls ys"
  by (induction xs rule: connect_calls.induct) auto

lemma disconnect_calls_append [simp]:
  "disconnect_calls (xs @ ys) = disconnect_calls xs @ disconnect_calls ys"
  by (induction xs rule: disconnect_calls.induct) auto

lemma observable_subscribe_log:
  "calls (snd (observable_subscribe this l w)) =
     calls w @ [Connect (fst (wrapWithObserver l (oheap w)))] \<and>
   oheap (snd (observable_subscribe this l w)) = snd (wrapWithObserver l (oheap w))"
  by (simp add: observable_subscribe_def Let_def split: prod.splits outcome.splits)

lemma observable_client_subscribes:
  "connect_calls (calls (snd (observable_client this (map Subscribe ls) w))) =
     connect_calls (calls w) @ normalized ls (oheap w)"
proof (induction ls arbitrary: w)
  case Nil
  then show ?case by simp
next
  case (Cons l ls)
  obtain r w' where s: "observable_subscribe this l w = (r, w')"
    by (cases "observable_subscribe this l w")
  with observable_subscribe_log [of this l w]
  have "calls w' = calls w @ [Connect (fst (wrapWithObserver l (oheap w)))]"
    and "oheap w' = snd (wrapWithObserver l (oheap w))" by simp_all
  with s Cons.IH [of w'] show ?case
    by (simp add: split_def Let_def)
qed

lemma length_normalized [simp]: "length (normalized ls h) = length ls"
  by (induction ls arbitrary: h) (auto simp: split_def Let_def)

lemma observable_subscribe_effect:
  assumes wr: "wrapWithObserver l (oheap w) = (ob, h)"
    and cn: "connect this ob (user w) = (r, u)"
  shows "observable_subscribe this l w =
           (case r of
              Throws e \<Rightarrow> (Throws e, w\<lparr>oheap := h, calls := calls w @ [Connect ob], user := u\<rparr>)
            | Returns d \<Rightarrow>
                (Returns (length (subscriptions w)),
                 w\<lparr>oheap := h, calls := calls w @ [Connect ob], user := u,
                    subscriptions := subscriptions w @ [\<lparr>closed = False, disconnect = d\<rparr>]\<rparr>))"
  using assms by (simp add: observable_subscribe_def Let_def split: outcome.splits)

lemma observable_client_effect:
  "fst (observable_client this (map Subscribe ls) w) =
     handles (length (subscriptions w))
       (fst (connect_each (connect this) (normalized ls (oheap w)) (user w))) \<and>
   user (snd (observable_client this (map Subscribe ls) w)) =
     snd (connect_each (connect this) (normalized ls (oheap w)) (user w)) \<and>
   map disconnect (subscriptions (snd (observable_client this (map Subscribe ls) w))) =
     map disconnect (subscriptions w) @
     returned (fst (connect_each (connect this) (normalized ls (oheap w)) (user w)))"
proof (induction ls arbitrary: w)
  case Nil
  then show ?case by simp
next
  case (Cons l ls)
  obtain ob h where wr: "wrapWithObserver l (oheap w) = (ob, h)"
    by (cases "wrapWithObserver l (oheap w)")
  obtain r u where cn: "connect this ob (user w) = (r, u)"
    by (cases "connect this ob (user w)")
  note eff = observable_subscribe_effect [OF wr cn]
  show ?case
  proof (cases r)
    case (Returns d)
    let ?w1 = "w\<lparr>oheap := h, calls := calls w @ [Connect ob], user := u,
                  subscriptions := subscriptions w @ [\<lparr>closed = False, disconnect = d\<rparr>]\<rparr>"
    from eff Returns have s: "observable_subscribe this l w = (Returns (length (subscriptions w)), ?w1)"
      by simp
    from Cons.IH [of ?w1] s wr cn Returns show ?thesis
      by (simp add: split_def Let_def)
  next
    case (Throws e)
    let ?w1 = "w\<lparr>oheap := h, calls := calls w @ [Connect ob], user := u\<rparr>"
    from eff Throws have s: "observable_subscribe this l w = (Throws e, ?w1)"
      by simp
    from Cons.IH [of ?w1] s wr cn Throws show ?thesis
      by (simp add: split_def Let_def)
  qed
qed

lemma get_next_grows: "get_next h ob = Some x \<Longrightarrow> get_next (h @ h') ob = Some x"
  by (cases ob) (auto simp: nth_append split: if_splits)

lemma normalizes_grows: "normalizes h l ob \<Longrightarrow> normalizes (h @ h') l ob"
  by (auto simp: normalizes_def get_next_grows)

lemma normalized_heap:
  "\<exists>h'. oheap (snd (observable_client this (map Subscribe ls) w)) = oheap w @ h' \<and>
         list_all2 (normalizes (oheap w @ h')) ls (normalized ls (oheap w))"
proof (induction ls arbitrary: w)
  case Nil
  then show ?case by simp
next
  case (Cons l ls)
  obtain ob h where wr: "wrapWithObserver l (oheap w) = (ob, h)"
    by (cases "wrapWithObserver l (oheap w)")
  obtain r w1 where s: "observable_subscribe this l w = (r, w1)"
    by (cases "observable_subscribe this l w")
  with observable_subscribe_log [of this l w] wr have h1: "oheap w1 = h" by simp
  from wr obtain g where g: "h = oheap w @ g" and n: "normalizes h l ob"
    by (auto simp: wrapWithObserver_def normalizes_def split: if_splits)
  from Cons.IH [of w1] obtain h' where
    a: "oheap (snd (observable_client this (map Subscribe ls) w1)) = oheap w1 @ h'"
    and b: "list_all2 (normalizes (oheap w1 @ h')) ls (normalized ls (oheap w1))"
    by blast
  from n have "normalizes (h @ h') l ob" by (rule normalizes_grows)
  with a b s wr h1 g show ?case
    by (intro exI [of _ "g @ h'"]) (simp add: split_def Let_def)
qed

text \<open>
  Claim C5.  The constructor leaves the world as it is: it does not apply the
  connect function.  A client that then calls \<open>subscribe\<close> with the listeners
  \<open>ls\<close>, one after the other, ends in the state that applying the connect
  function to the normalized observers leads to, once each and in order
  (\<open>length ls\<close> applications, whether or not one throws).  Each call returns a
  new Subscription, which holds the disconnect function that its application
  returned, or throws what its application threw.  The ghost log agrees, and each
  normalized observer is the listener itself or, for a function, an object whose
  \<open>next\<close> is that function.
\<close>

theorem connect_once_per_subscribe:
  "snd (IndefiniteObservable c w) = w \<and>
   fst (observable_client (fst (IndefiniteObservable c w)) (map Subscribe ls)
          (snd (IndefiniteObservable c w))) =
     handles (length (subscriptions w))
       (fst (connect_each c (normalized ls (oheap w)) (user w))) \<and>
   user (snd (observable_client (fst (IndefiniteObservable c w)) (map Subscribe ls)
                (snd (IndefiniteObservable c w)))) =
     snd (connect_each c (normalized ls (oheap w)) (user w)) \<and>
   map disconnect
     (subscriptions (snd (observable_client (fst (IndefiniteObservable c w)) (map Subscribe ls)
                            (snd (IndefiniteObservable c w))))) =
     map disconnect (subscriptions w) @
     returned (fst (connect_each c (normalized ls (oheap w)) (user w))) \<and>
   connect_calls
     (calls (snd (observable_client (fst (IndefiniteObservable c w)) (map Subscribe ls)
                    (snd (IndefiniteObservable c w)))))
     = connect_calls (calls w) @ normalized ls (oheap w) \<and>
   length (normalized ls (oheap w)) = length ls \<and>
   list_all2
     (normalizes
        (oheap (snd (observable_client (fst (IndefiniteObservable c w)) (map Subscribe ls)
                       (snd (IndefiniteObservable c w))))))
     ls (normalized ls (oheap w))"
proof -
  let ?obs = "\<lparr>connect = c\<rparr>"
  from normalized_heap [of ?obs ls w]
  have n: "list_all2 (normalizes (oheap (snd (observable_client ?obs (map Subscribe ls) w))))
             ls (normalized ls (oheap w))"
    by auto
  from observable_client_effect [of ?obs ls w] n show ?thesis
    by (simp add: IndefiniteObservable_def observable_client_subscribes)
qed

text \<open>Three subscriptions with a connect function that counts: it has run three times.\<close>

theorem connect_once_per_subscribe_witness:
  "connect_each tally [Ref 0, Ref 1, Ref 2] 0 =
     ([Returns (\<lambda>u'. (Returns (), u')), Returns (\<lambda>u'. (Returns (), u')),
       Returns (\<lambda>u'. (Returns (), u'))], 3) \<and>
   normalized [Fn 0, Fn 1, Fn 2] [] = [Ref 0, Ref 1, Ref 2] \<and>
   user (snd (observable_client (fst (IndefiniteObservable tally (empty_world :: (nat, nat closure) oworld)))
                (map Subscribe [Fn 0, Fn 1, Fn 2])
                (snd (IndefiniteObservable tally (empty_world :: (nat, nat closure) oworld))))) = 3 \<and>
   fst (observable_client (fst (IndefiniteObservable tally (empty_world :: (nat, nat closure) oworld)))
          (map Subscribe [Fn 0, Fn 1, Fn 2])
          (snd (IndefiniteObservable tally (empty_world :: (nat, nat closure) oworld)))) =
     [Subscribed 0, Subscribed 1, Subscribed 2]"
proof -
  let ?w = "empty_world :: (nat, nat closure) oworld"
  have ce: "connect_each tally [Ref 0, Ref 1, Ref 2] 0 =
     ([Returns (\<lambda>u'. (Returns (), u')), Returns (\<lambda>u'. (Returns (), u')),
       Returns (\<lambda>u'. (Returns (), u'))], 3)"
    by (simp add: tally_def)
  have nm: "normalized [Fn 0, Fn 1, Fn 2] [] = [Ref 0, Ref 1, Ref 2]"
    by (simp add: wrapWithObserver_def)
  have w0: "oheap ?w = []" "user ?w = 0" "subscriptions ?w = []"
    by (simp_all add: empty_world_def)
  note inst = connect_once_per_subscribe [of tally ?w "[Fn 0, Fn 1, Fn 2]"]
  have ru: "snd (connect_each tally (normalized [Fn 0, Fn 1, Fn 2] (oheap ?w)) (user ?w)) = 3"
    by (simp only: w0 nm ce) simp
  have rr: "handles (length (subscriptions ?w))
              (fst (connect_each tally (normalized [Fn 0, Fn 1, Fn 2] (oheap ?w)) (user ?w)))
            = [Subscribed 0, Subscribed 1, Subscribed 2]"
    by (simp only: w0 nm ce) simp
  have u: "user (snd (observable_client (fst (IndefiniteObservable tally (empty_world :: (nat, nat closure) oworld)))
                (map Subscribe [Fn 0, Fn 1, Fn 2])
                (snd (IndefiniteObservable tally ?w)))) = 3"
    by (rule trans [OF inst [THEN conjunct2, THEN conjunct2, THEN conjunct1] ru])
  have r: "fst (observable_client (fst (IndefiniteObservable tally (empty_world :: (nat, nat closure) oworld)))
          (map Subscribe [Fn 0, Fn 1, Fn 2])
          (snd (IndefiniteObservable tally ?w))) = [Subscribed 0, Subscribed 1, Subscribed 2]"
    by (rule trans [OF inst [THEN conjunct2, THEN conjunct1] rr])
  show ?thesis by (intro conjI ce nm u r)
qed

text \<open>
  In the class of dist, \<open>unsubscribe\<close> on a closed Subscription does nothing, and
  one or more calls of \<open>unsubscribe\<close> on a Subscription that \<open>subscribe\<close> has just
  returned call its disconnect function exactly once.
\<close>

lemma observable_unsubscribe_closed:
  assumes "k < length (subscriptions w)" and "closed (subscriptions w ! k)"
  shows "observable_unsubscribe k w = (Returns (), w)"
  using assms by (simp add: observable_unsubscribe_def)

lemma observable_unsubscribe_open:
  assumes "k < length (subscriptions w)" and "\<not> closed (subscriptions w ! k)"
  shows "calls (snd (observable_unsubscribe k w)) = calls w @ [Disconnect k] \<and>
         length (subscriptions (snd (observable_unsubscribe k w))) = length (subscriptions w) \<and>
         closed (subscriptions (snd (observable_unsubscribe k w)) ! k)"
  using assms by (simp add: observable_unsubscribe_def Let_def split_def)

lemma observable_client_closed:
  assumes "k < length (subscriptions w)" and "closed (subscriptions w ! k)"
  shows "observable_client this (replicate m (Unsubscribe k)) w = (replicate m Unsubscribed, w)"
  using assms by (induction m) (simp_all add: observable_unsubscribe_closed)

lemma unsubscribe_disconnects_once:
  assumes "observable_subscribe this l w = (Returns k, w1)"
  shows "disconnect_calls (calls (snd (observable_client this (replicate (Suc m) (Unsubscribe k)) w1)))
           = disconnect_calls (calls w1) @ [k]"
proof -
  from assms have k: "k < length (subscriptions w1)" and op: "\<not> closed (subscriptions w1 ! k)"
    by (auto simp: observable_subscribe_def Let_def split: prod.splits outcome.splits)
  obtain r w2 where u: "observable_unsubscribe k w1 = (r, w2)"
    by (cases "observable_unsubscribe k w1")
  with observable_unsubscribe_open [OF k op]
  have c: "calls w2 = calls w1 @ [Disconnect k]" and k2: "k < length (subscriptions w2)"
    and cl: "closed (subscriptions w2 ! k)" using k by simp_all
  from u observable_client_closed [OF k2 cl, of this m] c show ?thesis by simp
qed

text \<open>
  Claim C2.  The bundled copy has no \<open>closed\<close> flag: the \<open>unsubscribe\<close> of its
  Subscription is the disconnect function itself.  Here a client subscribes a
  callback and calls \<open>unsubscribe\<close> twice; the disconnect function runs twice (the
  client's counter ends at 2).
\<close>

theorem bundled_unsubscribe_twice:
  "bundled_client \<lparr>creator = counting\<rparr>
     [Subscribe (Fn 0), Unsubscribe 0, Unsubscribe 0] empty_world =
   ([Subscribed 0, Unsubscribed, Unsubscribed],
    \<lparr>user = 2, oheap = [JSObj (Some (Fn 0))],
     subscriptions = [\<lambda>u'. (Returns (), Suc u')],
     calls = [Connect (Ref 0), Disconnect 0, Disconnect 0]\<rparr>) \<and>
   disconnect_calls [Connect (Ref 0), Disconnect 0, Disconnect 0] = [0, 0]"
  by (simp add: bundled_subscribe_def next_truthy_def bundled_unsubscribe_def counting_def empty_world_def
        next_method_def Let_def)

section \<open>The bundled copy against the class of dist\<close>

lemma listener_ok_grows: "listener_ok h l \<Longrightarrow> listener_ok (h @ h') l"
  by (cases l) (auto simp: listener_ok_def next_truthy_def nth_append
                     split: if_splits option.splits)

lemma normalize_agrees:
  assumes "listener_ok h l"
  shows "(if \<not> next_truthy h l then (Ref (length h), h @ [JSObj (Some l)]) else (l, h))
           = wrapWithObserver l h"
  using assms by (auto simp: listener_ok_def wrapWithObserver_def)

lemma wrap_grows: "\<exists>h'. snd (wrapWithObserver l h) = h @ h'"
  by (auto simp: wrapWithObserver_def)

lemma map_update_same:
  "k < length xs \<Longrightarrow> (map f xs)[k := f (xs ! k)] = map f xs"
  by (metis list_update_id nth_map)

lemma clients_agree:
  assumes "agree w wb"
    and "\<forall>l \<in> set (subscribed cs). listener_ok (oheap w) l"
    and "distinct (unsubscribed cs)"
    and "\<forall>k \<in> set (unsubscribed cs). k < length (subscriptions w) \<longrightarrow> \<not> closed (subscriptions w ! k)"
  shows "fst (observable_client \<lparr>connect = c\<rparr> cs w) = fst (bundled_client \<lparr>creator = c\<rparr> cs wb) \<and>
         agree (snd (observable_client \<lparr>connect = c\<rparr> cs w)) (snd (bundled_client \<lparr>creator = c\<rparr> cs wb))"
  using assms
proof (induction cs arbitrary: w wb)
  case Nil
  then show ?case by simp
next
  case (Cons a cs)
  show ?case
  proof (cases a)
    case (Subscribe l)
    with Cons.prems(2) have ok: "listener_ok (oheap w) l" by simp
    obtain ob h where wr: "wrapWithObserver l (oheap w) = (ob, h)"
      by (cases "wrapWithObserver l (oheap w)")
    from wrap_grows [of l "oheap w"] wr obtain h' where h: "h = oheap w @ h'" by auto
    obtain r u where cn: "c ob (user w) = (r, u)" by (cases "c ob (user w)")
    obtain r1 w1 where s1: "observable_subscribe \<lparr>connect = c\<rparr> l w = (r1, w1)"
      by (cases "observable_subscribe \<lparr>connect = c\<rparr> l w")
    obtain r2 w2 where s2: "bundled_subscribe \<lparr>creator = c\<rparr> l wb = (r2, w2)"
      by (cases "bundled_subscribe \<lparr>creator = c\<rparr> l wb")
    from Cons.prems(1) have ag: "user wb = user w" "oheap wb = oheap w" "calls wb = calls w"
      "subscriptions wb = map disconnect (subscriptions w)" by (simp_all add: agree_def)
    from ok have nn: "l \<noteq> Null" by (simp add: listener_ok_def)
    have nb: "(if \<not> next_truthy (oheap wb) l
               then (Ref (length (oheap wb)), oheap wb @ [JSObj (Some l)]) else (l, oheap wb)) = (ob, h)"
      using normalize_agrees [OF ok] wr ag by (simp split: if_splits)
    have res: "(case r1 of Returns k \<Rightarrow> Subscribed k | Throws e \<Rightarrow> Failed e)
             = (case r2 of Returns k \<Rightarrow> Subscribed k | Throws e \<Rightarrow> Failed e)"
      and ag1: "agree w1 w2"
      and heap1: "oheap w1 = h"
      and subs1: "\<forall>k. k < length (subscriptions w) \<longrightarrow> k < length (subscriptions w1) \<and> subscriptions w1 ! k = subscriptions w ! k"
      and new1: "\<forall>k. k < length (subscriptions w1) \<longrightarrow> \<not> k < length (subscriptions w) \<longrightarrow> \<not> closed (subscriptions w1 ! k)"
      using s1 s2 wr cn ag nb nn
      by (auto simp: observable_subscribe_def bundled_subscribe_def agree_def Let_def nth_append
               split: outcome.splits)
    have "fst (observable_client \<lparr>connect = c\<rparr> cs w1) = fst (bundled_client \<lparr>creator = c\<rparr> cs w2) \<and>
         agree (snd (observable_client \<lparr>connect = c\<rparr> cs w1)) (snd (bundled_client \<lparr>creator = c\<rparr> cs w2))"
    proof (rule Cons.IH [OF ag1])
      show "\<forall>l \<in> set (subscribed cs). listener_ok (oheap w1) l"
        using Cons.prems(2) Subscribe heap1 h by (auto intro: listener_ok_grows)
      show "distinct (unsubscribed cs)" using Cons.prems(3) Subscribe by simp
      show "\<forall>k \<in> set (unsubscribed cs). k < length (subscriptions w1) \<longrightarrow> \<not> closed (subscriptions w1 ! k)"
        using Cons.prems(4) Subscribe subs1 new1 by (metis unsubscribed.simps(2))
    qed
    with Subscribe s1 s2 res show ?thesis by (simp add: split_def Let_def)
  next
    case (Unsubscribe k)
    from Cons.prems(1) have ag: "user wb = user w" "oheap wb = oheap w" "calls wb = calls w"
      "subscriptions wb = map disconnect (subscriptions w)" by (simp_all add: agree_def)
    obtain r1 w1 where s1: "observable_unsubscribe k w = (r1, w1)"
      by (cases "observable_unsubscribe k w")
    obtain r2 w2 where s2: "bundled_unsubscribe k wb = (r2, w2)"
      by (cases "bundled_unsubscribe k wb")
    from Cons.prems(4) Unsubscribe have op: "k < length (subscriptions w) \<longrightarrow> \<not> closed (subscriptions w ! k)"
      by simp
    from Cons.prems(3) Unsubscribe have nk: "k \<notin> set (unsubscribed cs)" by simp
    have res: "r1 = r2" and ag1: "agree w1 w2" and heap1: "oheap w1 = oheap w"
      and len1: "length (subscriptions w1) = length (subscriptions w)"
      and subs1: "\<forall>j. j \<noteq> k \<longrightarrow> subscriptions w1 ! j = subscriptions w ! j"
      using s1 s2 ag op
      by (auto simp: observable_unsubscribe_def bundled_unsubscribe_def agree_def Let_def
                     split_def map_update map_update_same
               split: if_splits)
    have "fst (observable_client \<lparr>connect = c\<rparr> cs w1) = fst (bundled_client \<lparr>creator = c\<rparr> cs w2) \<and>
         agree (snd (observable_client \<lparr>connect = c\<rparr> cs w1)) (snd (bundled_client \<lparr>creator = c\<rparr> cs w2))"
    proof (rule Cons.IH [OF ag1])
      show "\<forall>l \<in> set (subscribed cs). listener_ok (oheap w1) l"
        using Cons.prems(2) Unsubscribe heap1 by simp
      show "distinct (unsubscribed cs)" using Cons.prems(3) Unsubscribe by simp
      show "\<forall>k \<in> set (unsubscribed cs). k < length (subscriptions w1) \<longrightarrow> \<not> closed (subscriptions w1 ! k)"
        using Cons.prems(4) Unsubscribe subs1 len1 nk by auto
    qed
    with Unsubscribe s1 s2 res show ?thesis by (simp add: split_def Let_def)
  qed
qed

text \<open>
  Claim C10, as the code has it.  Start the two classes in worlds that agree and
  in which no Subscription is closed, with the same connect function.  For a
  client that subscribes only listeners on which the two tests come to the same
  decision (a function whose \<open>next\<close> is missing or falsy, or a value that is not
  a function, nor \<open>null\<close> or \<open>undefined\<close>, whose \<open>next\<close> is truthy) and calls
  \<open>unsubscribe\<close> at most once on each Subscription, the two classes give the same
  outcome for every call and end in worlds that agree: the connect function
  received the same observers, and the same disconnect functions ran, in the same
  order.
\<close>

theorem bundled_copy_agrees:
  assumes same: "agree w wb"
    and "open": "\<forall>s \<in> set (subscriptions w). \<not> closed s"
    and listeners: "\<forall>l \<in> set (subscribed cs). listener_ok (oheap w) l"
    and once: "distinct (unsubscribed cs)"
  shows "fst (observable_client (fst (IndefiniteObservable c w)) cs
                (snd (IndefiniteObservable c w))) =
         fst (bundled_client (fst (bundled_IndefiniteObservable c wb)) cs
                (snd (bundled_IndefiniteObservable c wb))) \<and>
         agree (snd (observable_client (fst (IndefiniteObservable c w)) cs
                       (snd (IndefiniteObservable c w))))
               (snd (bundled_client (fst (bundled_IndefiniteObservable c wb)) cs
                       (snd (bundled_IndefiniteObservable c wb))))"
proof -
  from "open" have "\<forall>k \<in> set (unsubscribed cs).
                   k < length (subscriptions w) \<longrightarrow> \<not> closed (subscriptions w ! k)"
    by simp
  from clients_agree [OF same listeners once this, of c] show ?thesis
    by (simp add: IndefiniteObservable_def bundled_IndefiniteObservable_def)
qed

theorem bundled_copy_agrees_witness:
  "agree (empty_world :: (nat, nat closure) oworld) empty_world \<and>
   subscribed [Subscribe (Fn 0), Unsubscribe 0, Subscribe (Fn 1)] = [Fn 0, Fn 1] \<and>
   listener_ok [] (Fn 0) \<and> listener_ok [] (Fn 1) \<and>
   distinct (unsubscribed [Subscribe (Fn 0), Unsubscribe 0, Subscribe (Fn 1)]) \<and>
   fst (observable_client \<lparr>connect = counting\<rparr>
          [Subscribe (Fn 0), Unsubscribe 0, Subscribe (Fn 1)] empty_world) =
     [Subscribed 0, Unsubscribed, Subscribed 1] \<and>
   fst (bundled_client \<lparr>creator = counting\<rparr>
          [Subscribe (Fn 0), Unsubscribe 0, Subscribe (Fn 1)] empty_world) =
     [Subscribed 0, Unsubscribed, Subscribed 1] \<and>
   calls (snd (bundled_client \<lparr>creator = counting\<rparr>
          [Subscribe (Fn 0), Unsubscribe 0, Subscribe (Fn 1)] empty_world)) =
     [Connect (Ref 0), Disconnect 0, Connect (Ref 1)] \<and>
   calls (snd (observable_client \<lparr>connect = counting\<rparr>
          [Subscribe (Fn 0), Unsubscribe 0, Subscribe (Fn 1)] empty_world)) =
     [Connect (Ref 0), Disconnect 0, Connect (Ref 1)]"
proof -
  let ?cs = "[Subscribe (Fn 0), Unsubscribe 0, Subscribe (Fn 1)]"
  let ?w = "empty_world :: (nat, nat closure) oworld"
  let ?wb = "empty_world :: (nat, nat disconnect) oworld"
  have ag0: "agree ?w ?wb" by (simp add: agree_def empty_world_def)
  have op: "\<forall>s \<in> set (subscriptions ?w). \<not> closed s" by (simp add: empty_world_def)
  have sb: "subscribed ?cs = [Fn 0, Fn 1]" by simp
  have l0: "listener_ok [] (Fn 0)" and l1: "listener_ok [] (Fn 1)"
    by (simp_all add: listener_ok_def next_truthy_def)
  then have l: "\<forall>l \<in> set (subscribed ?cs). listener_ok (oheap ?w) l"
    by (simp add: empty_world_def)
  have d: "distinct (unsubscribed ?cs)" by simp
  have b: "fst (bundled_client \<lparr>creator = counting\<rparr> ?cs empty_world) =
             [Subscribed 0, Unsubscribed, Subscribed 1]"
    by (simp add: bundled_subscribe_def next_truthy_def bundled_unsubscribe_def counting_def empty_world_def
          next_method_def Let_def)
  have bc: "calls (snd (bundled_client \<lparr>creator = counting\<rparr> ?cs empty_world)) =
             [Connect (Ref 0), Disconnect 0, Connect (Ref 1)]"
    by (simp add: bundled_subscribe_def next_truthy_def bundled_unsubscribe_def counting_def empty_world_def
          next_method_def Let_def)
  from bundled_copy_agrees [OF ag0 op l d, of counting]
  have eq: "fst (observable_client \<lparr>connect = counting\<rparr> ?cs empty_world) =
            fst (bundled_client \<lparr>creator = counting\<rparr> ?cs empty_world)"
    and ag: "agree (snd (observable_client \<lparr>connect = counting\<rparr> ?cs empty_world))
                   (snd (bundled_client \<lparr>creator = counting\<rparr> ?cs empty_world))"
    by (simp_all add: IndefiniteObservable_def bundled_IndefiniteObservable_def)
  from eq b have a: "fst (observable_client \<lparr>connect = counting\<rparr> ?cs empty_world) =
             [Subscribed 0, Unsubscribed, Subscribed 1]" by simp
  from ag bc have ac: "calls (snd (observable_client \<lparr>connect = counting\<rparr> ?cs empty_world)) =
             [Connect (Ref 0), Disconnect 0, Connect (Ref 1)]"
    by (simp add: agree_def)
  show ?thesis by (intro conjI ag0 sb l0 l1 d a b bc ac)
qed

text \<open>
  Claim C10 as stated fails.  After \<open>subscribe\<close> and two calls of \<open>unsubscribe\<close>
  the class of dist has called the disconnect function once and the bundled copy
  twice.  For an object without a \<open>next\<close> property, and for an object
  \<open>{next: null}\<close>, the class of dist hands the object itself to the connect
  function, while the bundled copy hands it a new object wrapped around it.  For
  a function that carries a \<open>next\<close> function the class of dist wraps it, while
  the bundled copy hands the function itself to the connect function.  For
  \<open>null\<close> the class of dist calls the connect function with \<open>null\<close>, while the
  bundled copy throws a TypeError before it calls anything.
\<close>

theorem bundled_copy_differs:
  "calls (snd (observable_client \<lparr>connect = counting\<rparr>
                 [Subscribe (Fn 0), Unsubscribe 0, Unsubscribe 0] empty_world)) =
     [Connect (Ref 0), Disconnect 0] \<and>
   calls (snd (bundled_client \<lparr>creator = counting\<rparr>
                 [Subscribe (Fn 0), Unsubscribe 0, Unsubscribe 0] empty_world)) =
     [Connect (Ref 0), Disconnect 0, Disconnect 0] \<and>
   user (snd (observable_client \<lparr>connect = counting\<rparr>
                 [Subscribe (Fn 0), Unsubscribe 0, Unsubscribe 0] empty_world)) = 1 \<and>
   user (snd (bundled_client \<lparr>creator = counting\<rparr>
                 [Subscribe (Fn 0), Unsubscribe 0, Unsubscribe 0] empty_world)) = 2 \<and>
   calls (snd (observable_client \<lparr>connect = counting\<rparr> [Subscribe (Ref 0)] bare_object_world)) =
     [Connect (Ref 0)] \<and>
   calls (snd (bundled_client \<lparr>creator = counting\<rparr> [Subscribe (Ref 0)] bare_object_world)) =
     [Connect (Ref 1)] \<and>
   calls (snd (observable_client \<lparr>connect = counting\<rparr> [Subscribe (Ref 0)] null_next_world)) =
     [Connect (Ref 0)] \<and>
   calls (snd (bundled_client \<lparr>creator = counting\<rparr> [Subscribe (Ref 0)] null_next_world)) =
     [Connect (Ref 1)] \<and>
   calls (snd (observable_client \<lparr>connect = counting\<rparr> [Subscribe (FnNext 0 (Fn 1))] empty_world)) =
     [Connect (Ref 0)] \<and>
   calls (snd (bundled_client \<lparr>creator = counting\<rparr> [Subscribe (FnNext 0 (Fn 1))] empty_world)) =
     [Connect (FnNext 0 (Fn 1))] \<and>
   bundled_client \<lparr>creator = counting\<rparr> [Subscribe Null] empty_world =
     ([Failed TypeError], empty_world) \<and>
   calls (snd (observable_client \<lparr>connect = counting\<rparr> [Subscribe Null] empty_world)) =
     [Connect Null]"
  by (simp add: observable_subscribe_def observable_unsubscribe_def bundled_subscribe_def
        bundled_unsubscribe_def counting_def empty_world_def bare_object_world_def
        null_next_world_def next_truthy_def wrapWithObserver_def Let_def)

end
